theory Spec2Isabelle
  imports Complex_Main
begin

section \<open>Generative models and the random source\<close>

text \<open>
  The rollouts of \<^verbatim>\<open>AIToolbox/MDP/Algorithms/Utils/Rollout.hpp\<close> are templates over a
  generative model \<^verbatim>\<open>M\<close> and a random engine \<^verbatim>\<open>Gen\<close>. A model is used through
  \<^verbatim>\<open>getA\<close>, \<^verbatim>\<open>sampleSR\<close>, \<^verbatim>\<open>isTerminal\<close> and \<^verbatim>\<open>getDiscount\<close> only.

  \<^item> States are any type \<open>'s\<close>, actions are \<^verbatim>\<open>size_t\<close> values, held as \<open>nat\<close>.
  \<^item> All randomness (the engine \<^verbatim>\<open>rnd\<close> and whatever engine the model owns) is one value
    of type \<open>'g\<close> that every sampling operation takes and returns.
  \<^item> \<^verbatim>\<open>double\<close> is the type parameter \<open>'r\<close> of a model. In \<open>gen_model\<close> it is idealised as
    \<open>real\<close>: rounding, infinities and NaN are not modelled there. Where rounding decides
    what the program does, the operations on \<^verbatim>\<open>double\<close> are parameters instead (see
    \<open>arith\<close> below).
  \<^item> \<^verbatim>\<open>HasFixedActionSpace<M>\<close> is the constructor of \<open>getA\<close>: a model either has
    \<^verbatim>\<open>getA()\<close> or \<^verbatim>\<open>getA(s)\<close>.
\<close>

datatype 's action_space = FixedActions nat | VariableActions "'s \<Rightarrow> nat"

record ('s, 'g, 'r) generative_model =
  getA :: "'s action_space"
  sampleSR :: "'s \<Rightarrow> nat \<Rightarrow> 'g \<Rightarrow> ('s \<times> 'r) \<times> 'g"
  isTerminal :: "'s \<Rightarrow> bool"
  getDiscount :: 'r

type_synonym ('s, 'g) gen_model = "('s, 'g, real) generative_model"

text \<open>
  \<^verbatim>\<open>std::uniform_int_distribution<size_t> dist(0, hi)\<close> applied to the engine is a
  parameter of the rollouts: given the upper bound \<open>hi\<close> and the engine, it returns the
  drawn action and the advanced engine. It is called \<open>udist\<close>, \<open>dist\<close> being the distance of
  a metric space here. The standard library's distribution keeps no state between draws,
  so building it once before the loop or anew at every step is the same function.
\<close>

type_synonym 'g uniform_int = "nat \<Rightarrow> 'g \<Rightarrow> nat \<times> 'g"

text \<open>\<^verbatim>\<open>n - 1\<close> on \<^verbatim>\<open>size_t\<close> (64 bits): zero wraps around to \<open>2^64 - 1\<close>.\<close>

definition size_t_pred :: "nat \<Rightarrow> nat" where
  "size_t_pred n = (n + 2 ^ 64 - 1) mod 2 ^ 64"

section \<open>What a rollout leaves behind\<close>

text \<open>
  Both functions return a \<^verbatim>\<open>double\<close> and advance the engine they were given by reference.
  \<open>outcome\<close> holds these two, and two observations of the control flow that the claims speak
  of: the number of \<^verbatim>\<open>sampleSR\<close> steps executed and which \<^verbatim>\<open>return\<close> statement was
  taken. \<^verbatim>\<open>rollout\<close> returns from inside the loop on a terminal state (lines 50-51, 64-65)
  or after it (line 70); \<^verbatim>\<open>adaptiveRollout\<close> has these two (lines 125-126, 154-155 and
  line 169) and the convergence return (lines 132-133, 161-162).
\<close>

datatype exit = Terminal | Converged | DepthReached

record ('g, 'r) rollout_outcome =
  ret :: 'r
  steps :: nat
  exitBy :: exit
  engine :: 'g

type_synonym 'g outcome = "('g, real) rollout_outcome"

section \<open>rollout\<close>

text \<open>
  The loop of \<^verbatim>\<open>rollout\<close> (lines 45-54 and 58-68; the two branches differ in the bound of
  the distribution only, which is \<open>hi\<close> here). The loop variables are \<open>depth\<close>, \<open>s\<close>,
  \<open>totalRew\<close>, \<open>gamma\<close> and the engine. \<^verbatim>\<open>depth\<close> is \<^verbatim>\<open>unsigned\<close> and stays below
  \<open>maxDepth\<close>, so it never wraps.
\<close>

function rolloutLoop ::
  "('s, 'g) gen_model \<Rightarrow> 'g uniform_int \<Rightarrow> ('s \<Rightarrow> nat) \<Rightarrow> nat \<Rightarrow>
   nat \<Rightarrow> 's \<Rightarrow> real \<Rightarrow> real \<Rightarrow> 'g \<Rightarrow> 'g outcome" where
  "rolloutLoop m udist hi maxDepth depth s totalRew gamma rnd =
     (if depth < maxDepth then
        (case udist (hi s) rnd of (a, rnd1) \<Rightarrow>
         case sampleSR m s a rnd1 of ((s', rew), rnd2) \<Rightarrow>
           if isTerminal m s' then
             \<lparr>ret = totalRew + gamma * rew, steps = Suc depth, exitBy = Terminal,
              engine = rnd2\<rparr>
           else rolloutLoop m udist hi maxDepth (Suc depth) s'
                  (totalRew + gamma * rew) (gamma * getDiscount m) rnd2)
      else \<lparr>ret = totalRew, steps = depth, exitBy = DepthReached, engine = rnd\<rparr>)"
  by pat_completeness auto
termination
  by (relation "measure (\<lambda>(m, udist, hi, maxDepth, depth, s, totalRew, gamma, rnd). maxDepth - depth)")
     auto

declare rolloutLoop.simps [simp del]

text \<open>\<^verbatim>\<open>rollout(m, s, maxDepth, rnd)\<close>; the returned \<^verbatim>\<open>double\<close> is \<open>ret\<close>.\<close>

definition rollout ::
  "('s, 'g) gen_model \<Rightarrow> 'g uniform_int \<Rightarrow> 's \<Rightarrow> nat \<Rightarrow> 'g \<Rightarrow> 'g outcome" where
  "rollout m udist s maxDepth rnd =
     (case getA m of
        FixedActions n \<Rightarrow>
          rolloutLoop m udist (\<lambda>_. size_t_pred n) maxDepth 0 s 0 1 rnd
      | VariableActions f \<Rightarrow>
          rolloutLoop m udist (\<lambda>s. size_t_pred (f s)) maxDepth 0 s 0 1 rnd)"

section \<open>adaptiveRollout\<close>

text \<open>
  The operations of the convergence check that are not defined on all inputs:
  \<^verbatim>\<open>windowSum / windowSize\<close> (line 130) at \<^verbatim>\<open>windowSize == 0\<close> and
  \<^verbatim>\<open>rewardWindow.back()\<close> (line 131) on an empty deque.
\<close>

datatype fault = DivisionByZero | BackOfEmptyDeque

text \<open>
  Lines 117-122: push the discounted reward \<open>x\<close> at the back of the deque and add it to the
  running sum; when the deque is then longer than \<open>windowSize\<close>, subtract its front from the
  sum and pop it. The deque is a list with its front at the head.
\<close>

definition pushWindow :: "nat \<Rightarrow> real \<Rightarrow> real list \<times> real \<Rightarrow> real list \<times> real" where
  "pushWindow windowSize x =
     (\<lambda>(rewardWindow, windowSum).
        if length (rewardWindow @ [x]) > windowSize
        then (tl (rewardWindow @ [x]), windowSum + x - hd (rewardWindow @ [x]))
        else (rewardWindow @ [x], windowSum + x))"

text \<open>
  Lines 130-132, the body of the guarded check: the average, the latest entry and the strict
  comparison with the threshold. Both undefined operations are reported when they occur.
\<close>

definition converged :: "real list \<Rightarrow> real \<Rightarrow> nat \<Rightarrow> real \<Rightarrow> fault list + bool" where
  "converged rewardWindow windowSum windowSize threshold =
     (let faults = (if windowSize = 0 then [DivisionByZero] else []) @
                   (if rewardWindow = [] then [BackOfEmptyDeque] else [])
      in if faults \<noteq> [] then Inl faults
         else Inr (\<bar>last rewardWindow - windowSum / real windowSize\<bar> < threshold))"

text \<open>
  The loop of \<^verbatim>\<open>adaptiveRollout\<close> (lines 112-138 and 140-167; again the branches differ in
  the bound \<open>hi\<close> only).
\<close>

function adaptiveLoop ::
  "('s, 'g) gen_model \<Rightarrow> 'g uniform_int \<Rightarrow> ('s \<Rightarrow> nat) \<Rightarrow> nat \<Rightarrow> nat \<Rightarrow> nat \<Rightarrow> real \<Rightarrow>
   nat \<Rightarrow> 's \<Rightarrow> real \<Rightarrow> real \<Rightarrow> real list \<Rightarrow> real \<Rightarrow> 'g \<Rightarrow> fault list + 'g outcome" where
  "adaptiveLoop m udist hi maxDepth minDepth windowSize threshold
       depth s totalRew gamma rewardWindow windowSum rnd =
     (if depth < maxDepth then
        (case udist (hi s) rnd of (a, rnd1) \<Rightarrow>
         case sampleSR m s a rnd1 of ((s', rew), rnd2) \<Rightarrow>
         case pushWindow windowSize (gamma * rew) (rewardWindow, windowSum) of
           (rewardWindow', windowSum') \<Rightarrow>
           if isTerminal m s' then
             Inr \<lparr>ret = totalRew + gamma * rew, steps = Suc depth, exitBy = Terminal,
                  engine = rnd2\<rparr>
           else
             (case (if depth \<ge> minDepth \<and> length rewardWindow' = windowSize
                    then converged rewardWindow' windowSum' windowSize threshold
                    else Inr False) of
                Inl faults \<Rightarrow> Inl faults
              | Inr stop \<Rightarrow>
                  if stop then
                    Inr \<lparr>ret = totalRew + gamma * rew, steps = Suc depth, exitBy = Converged,
                         engine = rnd2\<rparr>
                  else adaptiveLoop m udist hi maxDepth minDepth windowSize threshold
                         (Suc depth) s' (totalRew + gamma * rew) (gamma * getDiscount m)
                         rewardWindow' windowSum' rnd2))
      else Inr \<lparr>ret = totalRew, steps = depth, exitBy = DepthReached, engine = rnd\<rparr>)"
  by pat_completeness auto
termination
  by (relation "measure (\<lambda>(m, udist, hi, maxDepth, minDepth, windowSize, threshold,
                             depth, s, totalRew, gamma, rewardWindow, windowSum, rnd).
                           maxDepth - depth)")
     auto

declare adaptiveLoop.simps [simp del]

text \<open>
  \<^verbatim>\<open>adaptiveRollout(m, s, maxDepth, rnd, minDepth, windowSize, threshold)\<close>. The C++ defaults
  (10, 5, 0.01) are the caller's to pass.
\<close>

definition adaptiveRollout ::
  "('s, 'g) gen_model \<Rightarrow> 'g uniform_int \<Rightarrow> 's \<Rightarrow> nat \<Rightarrow> 'g \<Rightarrow> nat \<Rightarrow> nat \<Rightarrow> real \<Rightarrow>
   fault list + 'g outcome" where
  "adaptiveRollout m udist s maxDepth rnd minDepth windowSize threshold =
     (case getA m of
        FixedActions n \<Rightarrow>
          adaptiveLoop m udist (\<lambda>_. size_t_pred n) maxDepth minDepth windowSize threshold
            0 s 0 1 [] 0 rnd
      | VariableActions f \<Rightarrow>
          adaptiveLoop m udist (\<lambda>s. size_t_pred (f s)) maxDepth minDepth windowSize threshold
            0 s 0 1 [] 0 rnd)"

section \<open>adaptiveRollout over the arithmetic of the program\<close>

text \<open>
  Which step takes the convergence return depends on how the program's sums, products,
  quotient and comparison come out, and on \<^verbatim>\<open>double\<close> they are rounded: the running sum
  of the window is not the sum of its entries, and a difference can fall on the other side
  of the threshold than it does on \<open>real\<close>. For that question the loop is taken over the
  operations themselves. \<open>arith\<close> holds the operations on \<^verbatim>\<open>double\<close> that
  \<^verbatim>\<open>adaptiveRollout\<close> uses, on any carrier \<open>'r\<close>: the literals \<^verbatim>\<open>0.0\<close> and \<^verbatim>\<open>1.0\<close>,
  \<^verbatim>\<open>+\<close>, \<^verbatim>\<open>-\<close>, \<^verbatim>\<open>*\<close>, \<^verbatim>\<open>/\<close>, the conversion of the \<^verbatim>\<open>unsigned\<close> \<^verbatim>\<open>windowSize\<close>,
  \<^verbatim>\<open>std::abs\<close> and \<^verbatim>\<open><\<close>. Nothing is assumed of them, so IEEE arithmetic with its
  rounding, infinities and NaN is one instance, and the exact operations on \<open>real\<close> are
  another.
\<close>

record 'r arith =
  dZero :: 'r
  dOne :: 'r
  dAdd :: "'r \<Rightarrow> 'r \<Rightarrow> 'r"
  dSub :: "'r \<Rightarrow> 'r \<Rightarrow> 'r"
  dMul :: "'r \<Rightarrow> 'r \<Rightarrow> 'r"
  dDiv :: "'r \<Rightarrow> 'r \<Rightarrow> 'r"
  dOfUnsigned :: "nat \<Rightarrow> 'r"
  dAbs :: "'r \<Rightarrow> 'r"
  dLess :: "'r \<Rightarrow> 'r \<Rightarrow> bool"

text \<open>The exact operations on \<open>real\<close>, which the definitions above use.\<close>

definition exactArith :: "real arith" where
  "exactArith =
     \<lparr>dZero = 0, dOne = 1, dAdd = (+), dSub = (-), dMul = (*), dDiv = (/),
      dOfUnsigned = real, dAbs = abs, dLess = (<)\<rparr>"

text \<open>Lines 117-122 over \<open>arith\<close>: the same steps as \<open>pushWindow\<close>.\<close>

definition pushWindowOn :: "'r arith \<Rightarrow> nat \<Rightarrow> 'r \<Rightarrow> 'r list \<times> 'r \<Rightarrow> 'r list \<times> 'r" where
  "pushWindowOn ar windowSize x =
     (\<lambda>(rewardWindow, windowSum).
        if length (rewardWindow @ [x]) > windowSize
        then (tl (rewardWindow @ [x]),
              dSub ar (dAdd ar windowSum x) (hd (rewardWindow @ [x])))
        else (rewardWindow @ [x], dAdd ar windowSum x))"

text \<open>Lines 130-132 over \<open>arith\<close>: the same steps and faults as \<open>converged\<close>.\<close>

definition convergedOn :: "'r arith \<Rightarrow> 'r list \<Rightarrow> 'r \<Rightarrow> nat \<Rightarrow> 'r \<Rightarrow> fault list + bool" where
  "convergedOn ar rewardWindow windowSum windowSize threshold =
     (let faults = (if windowSize = 0 then [DivisionByZero] else []) @
                   (if rewardWindow = [] then [BackOfEmptyDeque] else [])
      in if faults \<noteq> [] then Inl faults
         else Inr (dLess ar
                     (dAbs ar (dSub ar (last rewardWindow)
                                 (dDiv ar windowSum (dOfUnsigned ar windowSize))))
                     threshold))"

text \<open>
  The loop (lines 112-138 and 140-167) over \<open>arith\<close>: \<open>adaptiveLoop\<close> with every operation
  on \<^verbatim>\<open>double\<close> replaced by the parameter's.
\<close>

function adaptiveLoopOn ::
  "'r arith \<Rightarrow> ('s, 'g, 'r) generative_model \<Rightarrow> 'g uniform_int \<Rightarrow> ('s \<Rightarrow> nat) \<Rightarrow>
   nat \<Rightarrow> nat \<Rightarrow> nat \<Rightarrow> 'r \<Rightarrow>
   nat \<Rightarrow> 's \<Rightarrow> 'r \<Rightarrow> 'r \<Rightarrow> 'r list \<Rightarrow> 'r \<Rightarrow> 'g \<Rightarrow> fault list + ('g, 'r) rollout_outcome" where
  "adaptiveLoopOn ar m udist hi maxDepth minDepth windowSize threshold
       depth s totalRew gamma rewardWindow windowSum rnd =
     (if depth < maxDepth then
        (case udist (hi s) rnd of (a, rnd1) \<Rightarrow>
         case sampleSR m s a rnd1 of ((s', rew), rnd2) \<Rightarrow>
         case pushWindowOn ar windowSize (dMul ar gamma rew) (rewardWindow, windowSum) of
           (rewardWindow', windowSum') \<Rightarrow>
           if isTerminal m s' then
             Inr \<lparr>ret = dAdd ar totalRew (dMul ar gamma rew), steps = Suc depth,
                  exitBy = Terminal, engine = rnd2\<rparr>
           else
             (case (if depth \<ge> minDepth \<and> length rewardWindow' = windowSize
                    then convergedOn ar rewardWindow' windowSum' windowSize threshold
                    else Inr False) of
                Inl faults \<Rightarrow> Inl faults
              | Inr stop \<Rightarrow>
                  if stop then
                    Inr \<lparr>ret = dAdd ar totalRew (dMul ar gamma rew), steps = Suc depth,
                         exitBy = Converged, engine = rnd2\<rparr>
                  else adaptiveLoopOn ar m udist hi maxDepth minDepth windowSize threshold
                         (Suc depth) s' (dAdd ar totalRew (dMul ar gamma rew))
                         (dMul ar gamma (getDiscount m)) rewardWindow' windowSum' rnd2))
      else Inr \<lparr>ret = totalRew, steps = depth, exitBy = DepthReached, engine = rnd\<rparr>)"
  by pat_completeness auto
termination
  by (relation "measure (\<lambda>(ar, m, udist, hi, maxDepth, minDepth, windowSize, threshold,
                             depth, s, totalRew, gamma, rewardWindow, windowSum, rnd).
                           maxDepth - depth)")
     auto

declare adaptiveLoopOn.simps [simp del]

text \<open>
  \<^verbatim>\<open>adaptiveRollout\<close> over \<open>arith\<close>; \<^verbatim>\<open>totalRew\<close> and \<^verbatim>\<open>windowSum\<close> start at \<^verbatim>\<open>0.0\<close> and
  \<^verbatim>\<open>gamma\<close> at \<^verbatim>\<open>1.0\<close> (lines 104 and 108).
\<close>

definition adaptiveRolloutOn ::
  "'r arith \<Rightarrow> ('s, 'g, 'r) generative_model \<Rightarrow> 'g uniform_int \<Rightarrow> 's \<Rightarrow> nat \<Rightarrow> 'g \<Rightarrow>
   nat \<Rightarrow> nat \<Rightarrow> 'r \<Rightarrow> fault list + ('g, 'r) rollout_outcome" where
  "adaptiveRolloutOn ar m udist s maxDepth rnd minDepth windowSize threshold =
     (case getA m of
        FixedActions n \<Rightarrow>
          adaptiveLoopOn ar m udist (\<lambda>_. size_t_pred n) maxDepth minDepth windowSize threshold
            0 s (dZero ar) (dOne ar) [] (dZero ar) rnd
      | VariableActions f \<Rightarrow>
          adaptiveLoopOn ar m udist (\<lambda>s. size_t_pred (f s)) maxDepth minDepth windowSize
            threshold 0 s (dZero ar) (dOne ar) [] (dZero ar) rnd)"

section \<open>The simulated episode\<close>

text \<open>
  The bound of the distribution at state \<open>s\<close>, whichever branch the model selects.
\<close>

definition actionBound :: "('s, 'g, 'r) generative_model \<Rightarrow> 's \<Rightarrow> nat" where
  "actionBound m =
     (case getA m of
        FixedActions n \<Rightarrow> (\<lambda>_. size_t_pred n)
      | VariableActions f \<Rightarrow> (\<lambda>s. size_t_pred (f s)))"

text \<open>
  The specification speaks of the steps of a simulation: up to \<open>n\<close> steps from \<open>s\<close>, each
  drawing an action and sampling the model, ending after the first step that reaches a
  terminal state. \<open>episode\<close> lists the state reached and the reward of every step.
\<close>

fun episode ::
  "('s, 'g, 'r) generative_model \<Rightarrow> 'g uniform_int \<Rightarrow> ('s \<Rightarrow> nat) \<Rightarrow> nat \<Rightarrow> 's \<Rightarrow> 'g \<Rightarrow>
   ('s \<times> 'r) list" where
  "episode m udist hi 0 s rnd = []"
| "episode m udist hi (Suc n) s rnd =
     (case udist (hi s) rnd of (a, rnd1) \<Rightarrow>
      case sampleSR m s a rnd1 of ((s', rew), rnd2) \<Rightarrow>
        (s', rew) # (if isTerminal m s' then [] else episode m udist hi n s' rnd2))"

text \<open>The discounted rewards \<open>gamma^k * r\<close> of an episode whose first step is at depth \<open>k\<close>.\<close>

fun discountedFrom :: "real \<Rightarrow> nat \<Rightarrow> ('s \<times> real) list \<Rightarrow> real list" where
  "discountedFrom g k [] = []"
| "discountedFrom g k (sr # tr) = g ^ k * snd sr # discountedFrom g (Suc k) tr"

text \<open>
  The step at depth \<open>d\<close> of an episode with states \<open>ss\<close> gets to the convergence test: the
  step exists, its state is not terminal, and \<open>d\<close> is at least \<open>minDepth\<close>.
\<close>

definition checkedAt :: "('s \<Rightarrow> bool) \<Rightarrow> nat \<Rightarrow> 's list \<Rightarrow> nat \<Rightarrow> bool" where
  "checkedAt isT minDepth ss d \<longleftrightarrow> d < length ss \<and> \<not> isT (ss ! d) \<and> minDepth \<le> d"

text \<open>
  The step at depth \<open>d\<close> of the episode that a call simulates from \<open>s\<close> with the engine
  \<open>rnd\<close> gets to the convergence test.
\<close>

definition reachesCheckAt ::
  "('s, 'g) gen_model \<Rightarrow> 'g uniform_int \<Rightarrow> 's \<Rightarrow> nat \<Rightarrow> 'g \<Rightarrow> nat \<Rightarrow> nat \<Rightarrow> bool" where
  "reachesCheckAt m udist s maxDepth rnd minDepth d \<longleftrightarrow>
     checkedAt (isTerminal m) minDepth
       (map fst (episode m udist (actionBound m) maxDepth s rnd)) d"

text \<open>
  The discounted rewards of an episode in the program's arithmetic. \<open>gammaPow\<close> is
  \<open>gamma^d\<close> as the repeated product \<open>1 * gamma * ... * gamma\<close> with \<open>d\<close> factors \<open>gamma\<close>,
  and the entry of the step at depth \<open>d\<close> is \<open>gamma^d * reward\<close>.
\<close>

fun gammaPow :: "'r arith \<Rightarrow> 'r \<Rightarrow> nat \<Rightarrow> 'r" where
  "gammaPow ar g 0 = dOne ar"
| "gammaPow ar g (Suc d) = dMul ar (gammaPow ar g d) g"

fun discountedOn :: "'r arith \<Rightarrow> 'r \<Rightarrow> nat \<Rightarrow> ('s \<times> 'r) list \<Rightarrow> 'r list" where
  "discountedOn ar g k [] = []"
| "discountedOn ar g k (sr # tr) =
     dMul ar (gammaPow ar g k) (snd sr) # discountedOn ar g (Suc k) tr"

text \<open>
  The sliding window after the step at depth \<open>d\<close>, in the specification's words: the most
  recent \<open>W\<close> of the discounted rewards \<open>ds\<close> of the steps \<open>0..d\<close> (all of them while there
  are fewer than \<open>W\<close>), the oldest being evicted when a new entry would make it \<open>W + 1\<close>.
\<close>

definition windowAt :: "nat \<Rightarrow> 'r list \<Rightarrow> nat \<Rightarrow> 'r list" where
  "windowAt W ds d = drop (Suc d - W) (take (Suc d) ds)"

text \<open>
  The running sum of the window after the first \<open>n\<close> entries: every entry is added when
  it enters the window, and the evicted entry, the one \<open>W\<close> places back, is subtracted when
  the window would exceed \<open>W\<close> entries. On an arithmetic that rounds this is not the sum of
  the entries in the window.
\<close>

fun runningSum :: "'r arith \<Rightarrow> nat \<Rightarrow> 'r list \<Rightarrow> nat \<Rightarrow> 'r" where
  "runningSum ar W ds 0 = dZero ar"
| "runningSum ar W ds (Suc n) =
     (if W \<le> n
      then dSub ar (dAdd ar (runningSum ar W ds n) (ds ! n)) (ds ! (n - W))
      else dAdd ar (runningSum ar W ds n) (ds ! n))"

text \<open>
  The early-termination condition of the specification at depth \<open>d\<close>: the step gets to the
  test, the window holds exactly \<open>W\<close> entries, and the absolute difference between its
  latest entry and the running sum divided by \<open>W\<close> is strictly below \<open>thr\<close>.
\<close>

definition earlyAt ::
  "'r arith \<Rightarrow> ('s \<Rightarrow> bool) \<Rightarrow> nat \<Rightarrow> nat \<Rightarrow> 'r \<Rightarrow> 's list \<Rightarrow> 'r list \<Rightarrow> nat \<Rightarrow> bool" where
  "earlyAt ar isT minDepth W thr ss ds d \<longleftrightarrow>
     checkedAt isT minDepth ss d \<and> length (windowAt W ds d) = W \<and>
     dLess ar
       (dAbs ar (dSub ar (last (windowAt W ds d))
                   (dDiv ar (runningSum ar W ds (Suc d)) (dOfUnsigned ar W))))
       thr"

text \<open>The same condition on the episode that a call simulates from \<open>s\<close> with the engine \<open>rnd\<close>.\<close>

definition stopsEarlyAt ::
  "'r arith \<Rightarrow> ('s, 'g, 'r) generative_model \<Rightarrow> 'g uniform_int \<Rightarrow> 's \<Rightarrow> nat \<Rightarrow> 'g \<Rightarrow>
   nat \<Rightarrow> nat \<Rightarrow> 'r \<Rightarrow> nat \<Rightarrow> bool" where
  "stopsEarlyAt ar m udist s maxDepth rnd minDepth W thr d \<longleftrightarrow>
     earlyAt ar (isTerminal m) minDepth W thr
       (map fst (episode m udist (actionBound m) maxDepth s rnd))
       (discountedOn ar (getDiscount m) 0 (episode m udist (actionBound m) maxDepth s rnd)) d"

section \<open>A concrete model\<close>

text \<open>
  A small model on which the definitions are run: states are integers, action \<open>a\<close> moves
  from \<open>s\<close> to \<open>s + a + 1\<close> for a reward of \<open>rew\<close>, states from \<open>goal\<close> on are terminal. The
  engine is a counter, and a draw with bound \<open>hi\<close> returns the counter modulo \<open>hi + 1\<close>.
\<close>

definition walk :: "nat \<Rightarrow> real \<Rightarrow> int \<Rightarrow> real \<Rightarrow> (int, int) gen_model" where
  "walk nA rew goal disc =
     \<lparr>getA = FixedActions nA,
      sampleSR = (\<lambda>s a g. ((s + int a + 1, rew), g)),
      isTerminal = (\<lambda>s. goal \<le> s),
      getDiscount = disc\<rparr>"

definition counterDraw :: "int uniform_int" where
  "counterDraw hi g = (nat (g mod (int hi + 1)), g + 1)"

text \<open>
  The same walk with rewards in any carrier, and an arithmetic that rounds: amounts in
  hundredths held as integers, products and quotients rounded down to whole hundredths.
\<close>

definition walkOn :: "nat \<Rightarrow> 'r \<Rightarrow> int \<Rightarrow> 'r \<Rightarrow> (int, int, 'r) generative_model" where
  "walkOn nA rew goal disc =
     \<lparr>getA = FixedActions nA,
      sampleSR = (\<lambda>s a g. ((s + int a + 1, rew), g)),
      isTerminal = (\<lambda>s. goal \<le> s),
      getDiscount = disc\<rparr>"

definition centsArith :: "int arith" where
  "centsArith =
     \<lparr>dZero = 0, dOne = 100, dAdd = (+), dSub = (-),
      dMul = (\<lambda>a b. a * b div 100), dDiv = (\<lambda>a b. a * 100 div b),
      dOfUnsigned = (\<lambda>n. 100 * int n), dAbs = abs, dLess = (<)\<rparr>"

section \<open>The tiger problem\<close>

text \<open>
  \<^verbatim>\<open>makeTigerProblem\<close> of \<^verbatim>\<open>examples/POMDP/tiger_door.cpp\<close> fills three tables and hands
  them to the model. A \<^verbatim>\<open>DumbMatrix3D\<close> (a three-dimensional \<^verbatim>\<open>boost::multi_array\<close> of
  \<^verbatim>\<open>double\<close>, zero on construction) is a list of lists of lists; every index the function
  writes is within the extents.
\<close>

type_synonym matrix3D = "real list list list"

definition newMatrix3D :: "nat \<Rightarrow> nat \<Rightarrow> nat \<Rightarrow> matrix3D" where
  "newMatrix3D n1 n2 n3 = replicate n1 (replicate n2 (replicate n3 0))"

definition put3D :: "nat \<Rightarrow> nat \<Rightarrow> nat \<Rightarrow> real \<Rightarrow> matrix3D \<Rightarrow> matrix3D" where
  "put3D i j k v t = t[i := (t ! i)[j := (t ! i ! j)[k := v]]]"

definition at3D :: "matrix3D \<Rightarrow> nat \<Rightarrow> nat \<Rightarrow> nat \<Rightarrow> real" where
  "at3D t i j k = t ! i ! j ! k"

text \<open>The two anonymous enums (lines 131-140).\<close>

definition A_LISTEN :: nat where "A_LISTEN = 0"
definition A_LEFT :: nat where "A_LEFT = 1"
definition A_RIGHT :: nat where "A_RIGHT = 2"
definition TIG_LEFT :: nat where "TIG_LEFT = 0"
definition TIG_RIGHT :: nat where "TIG_RIGHT = 1"

text \<open>
  Modelled from the spec: the class \<^verbatim>\<open>POMDP::Model<MDP::Model>\<close>, which is not among the
  sources. A model owns its transition, reward and observation semantics (section 3 of the
  specification): here its sizes, given to the constructor as \<^verbatim>\<open>model(O, S, A)\<close>, and the
  tables given to \<^verbatim>\<open>setTransitionFunction\<close>, \<^verbatim>\<open>setRewardFunction\<close> and
  \<^verbatim>\<open>setObservationFunction\<close>, which are taken to store the table they are given.
\<close>

record pomdp_model =
  getS :: nat
  getNA :: nat
  getO :: nat
  transitionFunction :: matrix3D
  rewardFunction :: matrix3D
  observationFunction :: matrix3D

text \<open>
  Lines 142-201. Each \<^verbatim>\<open>for\<close> loop over \<open>0..<n\<close> is a \<open>fold\<close> over \<open>[0..<n]\<close> whose
  accumulator is the table written; the assignments are in source order. \<open>O'\<close> is the
  source's \<^verbatim>\<open>O\<close>, a reserved word here.
\<close>

definition makeTigerProblem :: pomdp_model where
  "makeTigerProblem =
     (let S = 2; A = 3; O' = 2;
          transitions = newMatrix3D S A S;
          rewards = newMatrix3D S A S;
          observations = newMatrix3D S A O';
          transitions = fold (\<lambda>s. put3D s A_LISTEN s 1) [0..<S] transitions;
          transitions =
            fold (\<lambda>s. fold (\<lambda>s1 t. put3D s A_RIGHT s1 (1 / real S)
                                      (put3D s A_LEFT s1 (1 / real S) t)) [0..<S])
              [0..<S] transitions;
          observations = put3D TIG_LEFT A_LISTEN TIG_LEFT 0.85 observations;
          observations = put3D TIG_LEFT A_LISTEN TIG_RIGHT 0.15 observations;
          observations = put3D TIG_RIGHT A_LISTEN TIG_RIGHT 0.85 observations;
          observations = put3D TIG_RIGHT A_LISTEN TIG_LEFT 0.15 observations;
          observations =
            fold (\<lambda>s. fold (\<lambda>ob t. put3D s A_RIGHT ob (1 / real O')
                                      (put3D s A_LEFT ob (1 / real O') t)) [0..<O'])
              [0..<S] observations;
          rewards = fold (\<lambda>s. fold (\<lambda>s1. put3D s A_LISTEN s1 (- 1)) [0..<S]) [0..<S] rewards;
          rewards =
            fold (\<lambda>s1 t. put3D TIG_RIGHT A_RIGHT s1 (- 100)
                           (put3D TIG_LEFT A_RIGHT s1 10
                           (put3D TIG_LEFT A_LEFT s1 (- 100)
                           (put3D TIG_RIGHT A_LEFT s1 10 t)))) [0..<S] rewards
      in \<lparr>getS = S, getNA = A, getO = O', transitionFunction = transitions,
          rewardFunction = rewards, observationFunction = observations\<rparr>)"

text \<open>A row of a table is a probability distribution.\<close>

definition isProbability :: "real list \<Rightarrow> bool" where
  "isProbability row \<longleftrightarrow> list_all (\<lambda>p. 0 \<le> p) row \<and> sum_list row = 1"

section \<open>Comparing the two rollouts\<close>

text \<open>
  \<^verbatim>\<open>rollout\<close> has no convergence return. Where \<^verbatim>\<open>adaptiveRollout\<close> leaves by it after the
  last step that \<open>maxDepth\<close> allows, \<^verbatim>\<open>rollout\<close> leaves after the loop with the same
  value: \<open>asRollout\<close> renames the exit and keeps everything else.
\<close>

definition asRollout :: "'g outcome \<Rightarrow> 'g outcome" where
  "asRollout out = out\<lparr>exitBy := (if exitBy out = Converged then DepthReached else exitBy out)\<rparr>"

section \<open>Unfolding the loops\<close>

lemma rollout_loop:
  "rollout m udist s maxDepth rnd = rolloutLoop m udist (actionBound m) maxDepth 0 s 0 1 rnd"
  by (simp add: rollout_def actionBound_def split: action_space.splits)

lemma adaptiveRollout_loop:
  "adaptiveRollout m udist s maxDepth rnd minDepth W thr =
   adaptiveLoop m udist (actionBound m) maxDepth minDepth W thr 0 s 0 1 [] 0 rnd"
  by (simp add: adaptiveRollout_def actionBound_def split: action_space.splits)

lemma pushWindow_length:
  "pushWindow W x (w, ws) = (w', ws') \<Longrightarrow>
   length w' = (if W < Suc (length w) then length w else Suc (length w))"
  by (auto simp: pushWindow_def split: if_splits)

lemma converged_defined:
  "0 < W \<Longrightarrow> length w = W \<Longrightarrow>
   converged w ws W thr = Inr (\<bar>last w - ws / real W\<bar> < thr)"
  by (auto simp: converged_def)

lemma adaptiveLoop_steps:
  "adaptiveLoop m udist hi maxDepth minDepth W thr depth s T g w ws rnd = Inr out \<Longrightarrow>
   depth \<le> steps out \<and> (depth \<le> maxDepth \<longrightarrow> steps out \<le> maxDepth)"
proof (induction "maxDepth - depth" arbitrary: depth s T g w ws rnd)
  case 0
  then show ?case
    by (subst (asm) adaptiveLoop.simps) auto
next
  case (Suc n)
  have n: "n = maxDepth - Suc depth" and lt: "depth < maxDepth"
    using Suc.hyps(2) by auto
  from Suc.prems lt Suc.hyps(1)[OF n] show ?case
    by (subst (asm) adaptiveLoop.simps)
       (fastforce split: prod.splits sum.splits if_splits)
qed

lemma rolloutLoop_done:
  "maxDepth \<le> depth \<Longrightarrow> rolloutLoop m udist hi maxDepth depth s T g rnd =
   \<lparr>ret = T, steps = depth, exitBy = DepthReached, engine = rnd\<rparr>"
  by (subst rolloutLoop.simps) simp

lemma adaptiveLoop_prefix:
  "adaptiveLoop m udist hi maxDepth minDepth W thr depth s T g w ws rnd = Inr out \<Longrightarrow>
   rolloutLoop m udist hi (steps out) depth s T g rnd = asRollout out"
proof (induction "maxDepth - depth" arbitrary: depth s T g w ws rnd)
  case 0
  then show ?case
    by (subst (asm) adaptiveLoop.simps, subst rolloutLoop.simps) (auto simp: asRollout_def)
next
  case (Suc n)
  have n: "n = maxDepth - Suc depth" and lt: "depth < maxDepth"
    using Suc.hyps(2) by auto
  from Suc.prems lt Suc.hyps(1)[OF n] show ?case
    apply (subst (asm) adaptiveLoop.simps)
    apply (subst rolloutLoop.simps)
    apply (auto split: prod.splits sum.splits if_splits dest: adaptiveLoop_steps
                simp: rolloutLoop_done asRollout_def)
    done
qed

lemma adaptiveLoop_full:
  "adaptiveLoop m udist hi maxDepth minDepth W thr depth s T g w ws rnd = Inr out \<Longrightarrow>
   (exitBy out = Converged \<longrightarrow> maxDepth \<le> steps out) \<Longrightarrow>
   rolloutLoop m udist hi maxDepth depth s T g rnd = asRollout out"
proof (induction "maxDepth - depth" arbitrary: depth s T g w ws rnd)
  case 0
  then show ?case
    by (subst (asm) adaptiveLoop.simps, subst rolloutLoop.simps) (auto simp: asRollout_def)
next
  case (Suc n)
  have n: "n = maxDepth - Suc depth" and lt: "depth < maxDepth"
    using Suc.hyps(2) by auto
  from Suc.prems lt Suc.hyps(1)[OF n] show ?case
    apply (subst (asm) adaptiveLoop.simps)
    apply (subst rolloutLoop.simps)
    apply (auto split: prod.splits sum.splits if_splits 
                simp: rolloutLoop_done asRollout_def)
    done
qed

lemma adaptiveLoop_total:
  "0 < W \<Longrightarrow> \<exists>out. adaptiveLoop m udist hi maxDepth minDepth W thr depth s T g w ws rnd = Inr out"
proof (induction "maxDepth - depth" arbitrary: depth s T g w ws rnd)
  case 0
  then show ?case
    by (subst adaptiveLoop.simps) auto
next
  case (Suc n)
  have n: "n = maxDepth - Suc depth" and lt: "depth < maxDepth"
    using Suc.hyps(2) by auto
  from Suc.prems lt Suc.hyps(1)[OF n] show ?case
    apply (subst adaptiveLoop.simps)
    apply (auto split: prod.splits sum.splits if_splits simp: converged_defined)
    done
qed

lemma adaptiveLoop_nonpos:
  "thr \<le> 0 \<Longrightarrow> adaptiveLoop m udist hi maxDepth minDepth W thr depth s T g w ws rnd = Inr out \<Longrightarrow>
   exitBy out \<noteq> Converged"
proof (induction "maxDepth - depth" arbitrary: depth s T g w ws rnd)
  case 0
  then show ?case
    by (subst (asm) adaptiveLoop.simps) auto
next
  case (Suc n)
  have n: "n = maxDepth - Suc depth" and lt: "depth < maxDepth"
    using Suc.hyps(2) by auto
  from Suc.prems lt Suc.hyps(1)[OF n] show ?case
    apply (subst (asm) adaptiveLoop.simps)
    apply (auto split: prod.splits sum.splits if_splits simp: converged_def Let_def)
    done
qed

lemma adaptiveLoop_step:
  assumes "depth < maxDepth" "udist (hi s) rnd = (a, rnd1)"
    "sampleSR m s a rnd1 = ((s', rew), rnd2)"
    "pushWindow W (g * rew) (w, ws) = (w', ws')"
  shows "adaptiveLoop m udist hi maxDepth minDepth W thr depth s T g w ws rnd =
     (if isTerminal m s' then
        Inr \<lparr>ret = T + g * rew, steps = Suc depth, exitBy = Terminal, engine = rnd2\<rparr>
      else
        (case (if minDepth \<le> depth \<and> length w' = W then converged w' ws' W thr else Inr False) of
           Inl faults \<Rightarrow> Inl faults
         | Inr stop \<Rightarrow>
             if stop then
               Inr \<lparr>ret = T + g * rew, steps = Suc depth, exitBy = Converged, engine = rnd2\<rparr>
             else adaptiveLoop m udist hi maxDepth minDepth W thr (Suc depth) s' (T + g * rew)
                    (g * getDiscount m) w' ws' rnd2))"
  using assms by (subst adaptiveLoop.simps) simp

lemma adaptiveLoop_converged_late:
  "length w \<le> depth \<Longrightarrow>
   adaptiveLoop m udist hi maxDepth minDepth W thr depth s T g w ws rnd = Inr out \<Longrightarrow>
   exitBy out = Converged \<Longrightarrow> W \<le> steps out \<and> minDepth < steps out"
proof (induction "maxDepth - depth" arbitrary: depth s T g w ws rnd)
  case 0
  then show ?case
    by (subst (asm) adaptiveLoop.simps) auto
next
  case (Suc n)
  have n: "n = maxDepth - Suc depth" and lt: "depth < maxDepth"
    using Suc.hyps(2) by auto
  obtain a rnd1 where d: "udist (hi s) rnd = (a, rnd1)"
    by (cases "udist (hi s) rnd")
  obtain s' rew rnd2 where sr: "sampleSR m s a rnd1 = ((s', rew), rnd2)"
    by (cases "sampleSR m s a rnd1") auto
  obtain w' ws' where pw: "pushWindow W (g * rew) (w, ws) = (w', ws')"
    by (cases "pushWindow W (g * rew) (w, ws)")
  have len: "length w' \<le> Suc depth"
    using pushWindow_length[OF pw] Suc.prems(1) by (simp split: if_splits)
  from Suc.prems(2,3) len Suc.hyps(1)[OF n len] show ?case
    unfolding adaptiveLoop_step[where udist=udist and hi=hi, OF lt d sr pw]
    by (auto split: sum.splits if_splits)
qed

lemma adaptiveLoop_short:
  "length w \<le> depth \<Longrightarrow> maxDepth \<le> W \<or> maxDepth \<le> minDepth \<Longrightarrow>
   \<exists>out. adaptiveLoop m udist hi maxDepth minDepth W thr depth s T g w ws rnd = Inr out"
proof (induction "maxDepth - depth" arbitrary: depth s T g w ws rnd)
  case 0
  then show ?case
    by (subst adaptiveLoop.simps) auto
next
  case (Suc n)
  have n: "n = maxDepth - Suc depth" and lt: "depth < maxDepth"
    using Suc.hyps(2) by auto
  obtain a rnd1 where d: "udist (hi s) rnd = (a, rnd1)"
    by (cases "udist (hi s) rnd")
  obtain s' rew rnd2 where sr: "sampleSR m s a rnd1 = ((s', rew), rnd2)"
    by (cases "sampleSR m s a rnd1") auto
  obtain w' ws' where pw: "pushWindow W (g * rew) (w, ws) = (w', ws')"
    by (cases "pushWindow W (g * rew) (w, ws)")
  have len: "length w' \<le> Suc depth"
    using pushWindow_length[OF pw] Suc.prems(1) by (simp split: if_splits)
  have chk: "minDepth \<le> depth \<Longrightarrow> length w' = W \<Longrightarrow>
             \<exists>b. converged w' ws' W thr = Inr b"
    using Suc.prems(2) lt by (auto simp: converged_def)
  from chk Suc.hyps(1)[OF n len Suc.prems(2)] show ?case
    unfolding adaptiveLoop_step[where udist=udist and hi=hi, OF lt d sr pw]
    by (auto split: sum.splits if_splits)
qed


lemma adaptiveLoop_done:
  "maxDepth \<le> depth \<Longrightarrow> adaptiveLoop m udist hi maxDepth minDepth W thr depth s T g w ws rnd =
   Inr \<lparr>ret = T, steps = depth, exitBy = DepthReached, engine = rnd\<rparr>"
  by (subst adaptiveLoop.simps) simp

lemma asRollout_simps:
  "ret (asRollout out) = ret out" "steps (asRollout out) = steps out"
  "engine (asRollout out) = engine out"
  "exitBy out \<noteq> Converged \<Longrightarrow> asRollout out = out"
  by (simp_all add: asRollout_def)

lemma pushWindow_zero: "pushWindow 0 x ([], ws) = ([], ws)"
  by (simp add: pushWindow_def)

lemma converged_zero: "converged [] ws 0 thr = Inl [DivisionByZero, BackOfEmptyDeque]"
  by (simp add: converged_def)

lemma checkedAt_beyond: "length ss \<le> d \<Longrightarrow> \<not> checkedAt isT minDepth ss d"
  by (simp add: checkedAt_def)

lemma adaptiveLoop_zero_window:
  "length ss = depth \<Longrightarrow>
   (if \<exists>d\<ge>depth. checkedAt (isTerminal m) minDepth
                    (ss @ map fst (episode m udist hi (maxDepth - depth) s rnd)) d
    then adaptiveLoop m udist hi maxDepth minDepth 0 thr depth s T g [] ws rnd =
           Inl [DivisionByZero, BackOfEmptyDeque]
    else \<exists>out. adaptiveLoop m udist hi maxDepth minDepth 0 thr depth s T g [] ws rnd = Inr out)"
proof (induction "maxDepth - depth" arbitrary: depth s T g ss ws rnd)
  case 0
  then show ?case by (simp add: adaptiveLoop_done checkedAt_beyond)
next
  case (Suc n)
  have n: "n = maxDepth - Suc depth" and lt: "depth < maxDepth"
    using Suc.hyps(2) by auto
  obtain a rnd1 where d: "udist (hi s) rnd = (a, rnd1)"
    by (cases "udist (hi s) rnd")
  obtain s' rew rnd2 where sr: "sampleSR m s a rnd1 = ((s', rew), rnd2)"
    by (cases "sampleSR m s a rnd1") auto
  define tr' where "tr' = (if isTerminal m s' then [] else episode m udist hi n s' rnd2)"
  define sfull where "sfull = (ss @ [s']) @ map fst tr'"
  define C where "C = checkedAt (isTerminal m) minDepth sfull"
  have ep: "episode m udist hi (maxDepth - depth) s rnd = (s', rew) # tr'"
    using d sr by (simp add: Suc.hyps(2)[symmetric] tr'_def)
  have sfull_eq: "ss @ map fst (episode m udist hi (maxDepth - depth) s rnd) = sfull"
    by (simp add: ep sfull_def)
  have sfull_depth: "sfull ! depth = s'" "depth < length sfull"
    using Suc.prems by (simp_all add: sfull_def nth_append)
  have C_depth: "C depth \<longleftrightarrow> \<not> isTerminal m s' \<and> minDepth \<le> depth"
    by (simp add: C_def checkedAt_def sfull_depth)
  note step = adaptiveLoop_step[where udist=udist and hi=hi, OF lt d sr pushWindow_zero]
  have split: "(\<exists>d'\<ge>depth. C d') \<longleftrightarrow> C depth \<or> (\<exists>d'\<ge>Suc depth. C d')"
    by (metis Suc_leI le_less Suc_leD le_refl)
  show ?case
  proof (cases "isTerminal m s'")
    case True
    have len: "length sfull = Suc depth"
      using True Suc.prems by (simp add: sfull_def tr'_def)
    have "\<not> C d'" if "Suc depth \<le> d'" for d'
      unfolding C_def using that len by (simp add: checkedAt_beyond)
    then have "\<not> (\<exists>d'\<ge>depth. C d')"
      unfolding split using C_depth True by simp
    then show ?thesis
      unfolding sfull_eq C_def[symmetric] step using True by simp
  next
    case nonterm: False
    show ?thesis
    proof (cases "minDepth \<le> depth")
      case True
      then have "\<exists>d'\<ge>depth. C d'" using C_depth nonterm by blast
      then show ?thesis
        unfolding sfull_eq C_def[symmetric] step using nonterm True
        by (simp add: converged_zero)
    next
      case False
      have tr'_eq: "episode m udist hi (maxDepth - Suc depth) s' rnd2 = tr'"
        using nonterm n by (simp add: tr'_def)
      have l2: "length (ss @ [s']) = Suc depth"
        using Suc.prems by simp
      have ih: "if \<exists>d'\<ge>Suc depth. C d'
         then adaptiveLoop m udist hi maxDepth minDepth 0 thr (Suc depth) s' (T + g * rew)
                (g * getDiscount m) [] ws rnd2 = Inl [DivisionByZero, BackOfEmptyDeque]
         else \<exists>out. adaptiveLoop m udist hi maxDepth minDepth 0 thr (Suc depth) s' (T + g * rew)
                (g * getDiscount m) [] ws rnd2 = Inr out"
        using Suc.hyps(1)[OF n l2, of s' rnd2 "T + g * rew" "g * getDiscount m" ws]
        unfolding tr'_eq sfull_def[symmetric] C_def[symmetric] .
      have eq: "(\<exists>d'\<ge>depth. C d') \<longleftrightarrow> (\<exists>d'\<ge>Suc depth. C d')"
        unfolding split using C_depth False by simp
      show ?thesis
        unfolding sfull_eq C_def[symmetric] step eq using nonterm False ih by simp
    qed
  qed
qed

lemma episode_length: "length (episode m udist hi n s rnd) \<le> n"
  by (induction n arbitrary: s rnd) (auto split: prod.splits)

lemma episode_terminal_last:
  "d < length (episode m udist hi n s rnd) \<Longrightarrow>
   isTerminal m (fst (episode m udist hi n s rnd ! d)) \<Longrightarrow>
   Suc d = length (episode m udist hi n s rnd)"
proof (induction n arbitrary: s rnd d)
  case 0
  then show ?case by simp
next
  case (Suc n)
  then show ?case
    by (cases d) (auto split: prod.splits if_splits)
qed

lemma episode_short:
  "length (episode m udist hi n s rnd) < n \<Longrightarrow>
   episode m udist hi n s rnd \<noteq> [] \<and> isTerminal m (fst (last (episode m udist hi n s rnd)))"
proof (induction n arbitrary: s rnd)
  case 0
  then show ?case by simp
next
  case (Suc n)
  then show ?case
    by (auto split: prod.splits if_splits)
qed

lemma discountedFrom_Suc:
  "sum_list (discountedFrom g (Suc k) tr) = g * sum_list (discountedFrom g k tr)"
  by (induction tr arbitrary: k) (simp_all add: algebra_simps)

lemma discountedFrom_map:
  "discountedFrom g k tr = map (\<lambda>i. g ^ (k + i) * snd (tr ! i)) [0..<length tr]"
proof (induction tr arbitrary: k)
  case Nil
  then show ?case by simp
next
  case (Cons sr tr)
  have "map (\<lambda>i. g ^ (k + i) * snd ((sr # tr) ! i)) [0..<length (sr # tr)] =
        g ^ k * snd sr # map (\<lambda>i. g ^ (k + Suc i) * snd (tr ! i)) [0..<length tr]"
    by (simp add: upt_conv_Cons map_Suc_upt[symmetric] del: upt_Suc)
  then show ?case using Cons.IH[of "Suc k"] by simp
qed

lemma discountedFrom_sum:
  "sum_list (discountedFrom g 0 tr) = (\<Sum>d<length tr. g ^ d * snd (tr ! d))"
  by (simp add: discountedFrom_map interv_sum_list_conv_sum_set_nat atLeast0LessThan)

lemma rolloutLoop_step:
  assumes "depth < maxDepth" "udist (hi s) rnd = (a, rnd1)"
    "sampleSR m s a rnd1 = ((s', rew), rnd2)"
  shows "rolloutLoop m udist hi maxDepth depth s T g rnd =
     (if isTerminal m s' then
        \<lparr>ret = T + g * rew, steps = Suc depth, exitBy = Terminal, engine = rnd2\<rparr>
      else rolloutLoop m udist hi maxDepth (Suc depth) s' (T + g * rew) (g * getDiscount m) rnd2)"
  using assms by (subst rolloutLoop.simps) simp

lemma rolloutLoop_episode:
  "ret (rolloutLoop m udist hi maxDepth depth s T g rnd) =
     T + g * sum_list (discountedFrom (getDiscount m) 0 (episode m udist hi (maxDepth - depth) s rnd)) \<and>
   steps (rolloutLoop m udist hi maxDepth depth s T g rnd) =
     depth + length (episode m udist hi (maxDepth - depth) s rnd) \<and>
   exitBy (rolloutLoop m udist hi maxDepth depth s T g rnd) =
     (if episode m udist hi (maxDepth - depth) s rnd \<noteq> [] \<and>
         isTerminal m (fst (last (episode m udist hi (maxDepth - depth) s rnd)))
      then Terminal else DepthReached)"
proof (induction "maxDepth - depth" arbitrary: depth s T g rnd)
  case 0
  then show ?case by (simp add: rolloutLoop_done)
next
  case (Suc n)
  have n: "n = maxDepth - Suc depth" and lt: "depth < maxDepth"
    using Suc.hyps(2) by auto
  obtain a rnd1 where d: "udist (hi s) rnd = (a, rnd1)"
    by (cases "udist (hi s) rnd")
  obtain s' rew rnd2 where sr: "sampleSR m s a rnd1 = ((s', rew), rnd2)"
    by (cases "sampleSR m s a rnd1") auto
  define tr' where "tr' = (if isTerminal m s' then [] else episode m udist hi n s' rnd2)"
  have ep: "episode m udist hi (maxDepth - depth) s rnd = (s', rew) # tr'"
    using d sr by (simp add: Suc.hyps(2)[symmetric] tr'_def)
  note step = rolloutLoop_step[where udist=udist and hi=hi, OF lt d sr]
  show ?case
  proof (cases "isTerminal m s'")
    case True
    then show ?thesis unfolding step ep by (simp add: tr'_def)
  next
    case False
    then have tr'_eq: "episode m udist hi (maxDepth - Suc depth) s' rnd2 = tr'"
      using n by (simp add: tr'_def)
    show ?thesis
      using Suc.hyps(1)[OF n, of s' "T + g * rew" "g * getDiscount m" rnd2] False
      unfolding step ep tr'_eq
      by (simp add: discountedFrom_Suc algebra_simps)
  qed
qed

lemma episode_nonempty: "0 < n \<Longrightarrow> episode m udist hi n s rnd \<noteq> []"
  by (cases n) (auto split: prod.splits)

lemmas run_simps = rollout_def adaptiveRollout_def walk_def counterDraw_def rolloutLoop.simps
  adaptiveLoop.simps pushWindow_def converged_def size_t_pred_def

lemma episode_unfold:
  "0 < n \<Longrightarrow> episode m udist hi n s rnd =
     (case udist (hi s) rnd of (a, rnd1) \<Rightarrow>
      case sampleSR m s a rnd1 of ((s', rew), rnd2) \<Rightarrow>
        (s', rew) # (if isTerminal m s' then [] else episode m udist hi (n - 1) s' rnd2))"
  by (cases n) (auto split: prod.splits)

lemmas episode_simps = episode_unfold actionBound_def walk_def counterDraw_def size_t_pred_def

section \<open>The loop over any arithmetic\<close>

lemma adaptiveRolloutOn_loop:
  "adaptiveRolloutOn ar m udist s maxDepth rnd minDepth W thr =
   adaptiveLoopOn ar m udist (actionBound m) maxDepth minDepth W thr
     0 s (dZero ar) (dOne ar) [] (dZero ar) rnd"
  by (simp add: adaptiveRolloutOn_def actionBound_def split: action_space.splits)

lemma adaptiveLoopOn_done:
  "maxDepth \<le> depth \<Longrightarrow>
   adaptiveLoopOn ar m udist hi maxDepth minDepth W thr depth s T g w ws rnd =
   Inr \<lparr>ret = T, steps = depth, exitBy = DepthReached, engine = rnd\<rparr>"
  by (subst adaptiveLoopOn.simps) simp

lemma adaptiveLoopOn_step:
  assumes "depth < maxDepth" "udist (hi s) rnd = (a, rnd1)"
    "sampleSR m s a rnd1 = ((s', rew), rnd2)"
    "pushWindowOn ar W (dMul ar g rew) (w, ws) = (w', ws')"
  shows "adaptiveLoopOn ar m udist hi maxDepth minDepth W thr depth s T g w ws rnd =
     (if isTerminal m s' then
        Inr \<lparr>ret = dAdd ar T (dMul ar g rew), steps = Suc depth, exitBy = Terminal,
             engine = rnd2\<rparr>
      else
        (case (if minDepth \<le> depth \<and> length w' = W then convergedOn ar w' ws' W thr
               else Inr False) of
           Inl faults \<Rightarrow> Inl faults
         | Inr stop \<Rightarrow>
             if stop then
               Inr \<lparr>ret = dAdd ar T (dMul ar g rew), steps = Suc depth, exitBy = Converged,
                    engine = rnd2\<rparr>
             else adaptiveLoopOn ar m udist hi maxDepth minDepth W thr (Suc depth) s'
                    (dAdd ar T (dMul ar g rew)) (dMul ar g (getDiscount m)) w' ws' rnd2))"
  using assms by (subst adaptiveLoopOn.simps) simp

lemma convergedOn_defined:
  "0 < W \<Longrightarrow> length w = W \<Longrightarrow>
   convergedOn ar w ws W thr =
     Inr (dLess ar (dAbs ar (dSub ar (last w) (dDiv ar ws (dOfUnsigned ar W)))) thr)"
  by (auto simp: convergedOn_def)

lemma runningSum_prefix:
  "n \<le> length ds \<Longrightarrow> runningSum ar W (ds @ es) n = runningSum ar W ds n"
proof (induction n)
  case 0
  then show ?case by simp
next
  case (Suc n)
  then have "n < length ds" "n - W < length ds" by simp_all
  then show ?case using Suc by (simp add: nth_append)
qed

lemma pushWindowOn_inv:
  assumes "length ds = k"
  shows "pushWindowOn ar W x (drop (k - W) ds, runningSum ar W ds k) =
         (drop (Suc k - W) (ds @ [x]), runningSum ar W (ds @ [x]) (Suc k))"
proof (cases "k < W")
  case True
  then show ?thesis
    using assms by (auto simp: pushWindowOn_def runningSum_prefix)
next
  case False
  define w where "w = drop (k - W) ds"
  have lw: "length w = W" using False assms by (simp add: w_def)
  have long: "W < length (w @ [x])" using lw by simp
  have tl_eq: "tl (w @ [x]) = drop (Suc k - W) (ds @ [x])"
  proof (cases "W = 0")
    case True
    then show ?thesis using lw assms by simp
  next
    case False
    then have "w \<noteq> []" using lw by auto
    then have "tl (w @ [x]) = tl w @ [x]" by simp
    also have "tl w = drop (Suc (k - W)) ds" by (simp add: w_def drop_Suc tl_drop)
    also have "Suc (k - W) = Suc k - W" using \<open>\<not> k < W\<close> by simp
    finally show ?thesis using assms False \<open>\<not> k < W\<close> by simp
  qed
  have hd_eq: "hd (w @ [x]) = (ds @ [x]) ! (k - W)"
  proof (cases "W = 0")
    case True
    then show ?thesis using lw assms by auto
  next
    case False
    then have ne: "w \<noteq> []" using lw by auto
    have "k - W < length ds" using False \<open>\<not> k < W\<close> assms by simp
    then show ?thesis
      using ne by (simp add: w_def hd_drop_conv_nth nth_append)
  qed
  have sum_eq: "runningSum ar W (ds @ [x]) (Suc k) =
                dSub ar (dAdd ar (runningSum ar W ds k) x) (hd (w @ [x]))"
    using False assms by (auto simp: runningSum_prefix hd_eq)
  show ?thesis
    unfolding w_def[symmetric] pushWindowOn_def using long sum_eq tl_eq by simp
qed

lemma earlyAt_beyond:
  "length ss \<le> d \<Longrightarrow> \<not> earlyAt ar isT minDepth W thr ss ds d"
  by (simp add: earlyAt_def checkedAt_def)

lemma adaptiveLoopOn_converged_pos:
  "adaptiveLoopOn ar m udist hi maxDepth minDepth W thr depth s T g w ws rnd = Inr out \<Longrightarrow>
   exitBy out = Converged \<Longrightarrow> 0 < W"
proof (induction "maxDepth - depth" arbitrary: depth s T g w ws rnd)
  case 0
  then show ?case
    by (auto simp: adaptiveLoopOn_done)
next
  case (Suc n)
  have n: "n = maxDepth - Suc depth" and lt: "depth < maxDepth"
    using Suc.hyps(2) by auto
  obtain a rnd1 where d: "udist (hi s) rnd = (a, rnd1)"
    by (cases "udist (hi s) rnd")
  obtain s' rew rnd2 where sr: "sampleSR m s a rnd1 = ((s', rew), rnd2)"
    by (cases "sampleSR m s a rnd1") auto
  obtain w' ws' where pw: "pushWindowOn ar W (dMul ar g rew) (w, ws) = (w', ws')"
    by (cases "pushWindowOn ar W (dMul ar g rew) (w, ws)")
  from Suc.prems Suc.hyps(1)[OF n] show ?case
    unfolding adaptiveLoopOn_step[where udist=udist and hi=hi, OF lt d sr pw]
    by (auto simp: convergedOn_def split: sum.splits if_splits)
qed

lemma adaptiveLoopOn_early:
  assumes W: "0 < W"
  shows "length ds = depth \<Longrightarrow> length ss = depth \<Longrightarrow>
   \<exists>out. adaptiveLoopOn ar m udist hi maxDepth minDepth W thr depth s T
            (gammaPow ar (getDiscount m) depth)
            (drop (depth - W) ds) (runningSum ar W ds depth) rnd = Inr out \<and>
     (exitBy out = Converged \<longrightarrow>
        depth < steps out \<and>
        earlyAt ar (isTerminal m) minDepth W thr
          (ss @ map fst (episode m udist hi (maxDepth - depth) s rnd))
          (ds @ discountedOn ar (getDiscount m) depth (episode m udist hi (maxDepth - depth) s rnd))
          (steps out - 1) \<and>
        (\<forall>d. depth \<le> d \<and> d < steps out - 1 \<longrightarrow>
           \<not> earlyAt ar (isTerminal m) minDepth W thr
              (ss @ map fst (episode m udist hi (maxDepth - depth) s rnd))
              (ds @ discountedOn ar (getDiscount m) depth
                      (episode m udist hi (maxDepth - depth) s rnd))
              d)) \<and>
     (exitBy out \<noteq> Converged \<longrightarrow>
        (\<forall>d\<ge>depth.
           \<not> earlyAt ar (isTerminal m) minDepth W thr
              (ss @ map fst (episode m udist hi (maxDepth - depth) s rnd))
              (ds @ discountedOn ar (getDiscount m) depth
                      (episode m udist hi (maxDepth - depth) s rnd))
              d))"
proof (induction "maxDepth - depth" arbitrary: depth s T ds ss rnd)
  case 0
  then show ?case by (simp add: adaptiveLoopOn_done earlyAt_beyond)
next
  case (Suc n)
  have n: "n = maxDepth - Suc depth" and lt: "depth < maxDepth"
    using Suc.hyps(2) by auto
  obtain a rnd1 where d: "udist (hi s) rnd = (a, rnd1)"
    by (cases "udist (hi s) rnd")
  obtain s' rew rnd2 where sr: "sampleSR m s a rnd1 = ((s', rew), rnd2)"
    by (cases "sampleSR m s a rnd1") auto
  define x where "x = dMul ar (gammaPow ar (getDiscount m) depth) rew"
  define tr' where "tr' = (if isTerminal m s' then [] else episode m udist hi n s' rnd2)"
  define w' where "w' = drop (Suc depth - W) (ds @ [x])"
  define ws' where "ws' = runningSum ar W (ds @ [x]) (Suc depth)"
  define full where "full = (ds @ [x]) @ discountedOn ar (getDiscount m) (Suc depth) tr'"
  define sfull where "sfull = (ss @ [s']) @ map fst tr'"
  define E where "E = earlyAt ar (isTerminal m) minDepth W thr sfull full"
  have ep: "episode m udist hi (maxDepth - depth) s rnd = (s', rew) # tr'"
    using d sr by (simp add: Suc.hyps(2)[symmetric] tr'_def)
  have full_eq: "ds @ discountedOn ar (getDiscount m) depth
                        (episode m udist hi (maxDepth - depth) s rnd) = full"
    by (simp add: ep full_def x_def)
  have sfull_eq: "ss @ map fst (episode m udist hi (maxDepth - depth) s rnd) = sfull"
    by (simp add: ep sfull_def)
  have pw: "pushWindowOn ar W (dMul ar (gammaPow ar (getDiscount m) depth) rew)
              (drop (depth - W) ds, runningSum ar W ds depth) = (w', ws')"
    unfolding w'_def ws'_def x_def[symmetric] by (rule pushWindowOn_inv[OF Suc.prems(1)])
  have win: "windowAt W full depth = w'"
    using Suc.prems(1) by (simp add: windowAt_def full_def w'_def)
  have rs: "runningSum ar W full (Suc depth) = ws'"
    unfolding full_def ws'_def using Suc.prems(1) by (intro runningSum_prefix) simp
  have sfull_depth: "sfull ! depth = s'" "depth < length sfull"
    using Suc.prems(2) by (simp_all add: sfull_def nth_append)
  have E_depth: "E depth \<longleftrightarrow> \<not> isTerminal m s' \<and> minDepth \<le> depth \<and> length w' = W \<and>
       dLess ar (dAbs ar (dSub ar (last w') (dDiv ar ws' (dOfUnsigned ar W)))) thr"
    by (simp add: E_def earlyAt_def checkedAt_def win rs sfull_depth del: runningSum.simps)
  note step = adaptiveLoopOn_step[where udist=udist and hi=hi, OF lt d sr pw]
  show ?case
  proof (cases "isTerminal m s'")
    case True
    have len: "length sfull = Suc depth"
      using True Suc.prems(2) by (simp add: sfull_def tr'_def)
    have "\<not> E d'" if "depth \<le> d'" for d'
    proof (cases "d' = depth")
      case True
      then show ?thesis using E_depth \<open>isTerminal m s'\<close> by simp
    next
      case False
      then have "length sfull \<le> d'" using that len by simp
      then show ?thesis unfolding E_def by (rule earlyAt_beyond)
    qed
    then show ?thesis
      unfolding full_eq sfull_eq E_def[symmetric] step using True by simp
  next
    case nonterm: False
    show ?thesis
    proof (cases "E depth")
      case True
      then have "convergedOn ar w' ws' W thr = Inr True"
        using E_depth W by (simp add: convergedOn_defined)
      then show ?thesis
        unfolding full_eq sfull_eq E_def[symmetric] step using nonterm True E_depth by auto
    next
      case False
      have nostop: "(if minDepth \<le> depth \<and> length w' = W then convergedOn ar w' ws' W thr
                     else Inr False) = Inr False"
        using False E_depth nonterm W by (simp add: convergedOn_defined)
      have tr'_eq: "episode m udist hi (maxDepth - Suc depth) s' rnd2 = tr'"
        using nonterm n by (simp add: tr'_def)
      have l1: "length (ds @ [x]) = Suc depth" and l2: "length (ss @ [s']) = Suc depth"
        using Suc.prems by simp_all
      from Suc.hyps(1)[OF n l1 l2,
          of s' "dAdd ar T (dMul ar (gammaPow ar (getDiscount m) depth) rew)" rnd2]
      obtain out where out:
        "adaptiveLoopOn ar m udist hi maxDepth minDepth W thr (Suc depth) s'
           (dAdd ar T (dMul ar (gammaPow ar (getDiscount m) depth) rew))
           (gammaPow ar (getDiscount m) (Suc depth)) w' ws' rnd2 = Inr out"
        "exitBy out = Converged \<longrightarrow> Suc depth < steps out \<and> E (steps out - 1) \<and>
           (\<forall>d. Suc depth \<le> d \<and> d < steps out - 1 \<longrightarrow> \<not> E d)"
        "exitBy out \<noteq> Converged \<longrightarrow> (\<forall>d\<ge>Suc depth. \<not> E d)"
        unfolding tr'_eq w'_def[symmetric] ws'_def[symmetric] full_def[symmetric]
          sfull_def[symmetric] E_def[symmetric]
        by blast
      have call: "adaptiveLoopOn ar m udist hi maxDepth minDepth W thr depth s T
            (gammaPow ar (getDiscount m) depth)
            (drop (depth - W) ds) (runningSum ar W ds depth) rnd = Inr out"
        unfolding step using nonterm nostop out(1) by simp
      have from_depth: "\<not> E d'" if "depth \<le> d'" "Suc depth \<le> d' \<Longrightarrow> \<not> E d'" for d'
        using that False by (cases "d' = depth") auto
      have a1: "exitBy out = Converged \<longrightarrow> depth < steps out \<and> E (steps out - 1) \<and>
           (\<forall>d. depth \<le> d \<and> d < steps out - 1 \<longrightarrow> \<not> E d)"
        using out(2) from_depth by (metis Suc_lessD)
      have a2: "exitBy out \<noteq> Converged \<longrightarrow> (\<forall>d\<ge>depth. \<not> E d)"
        using out(3) from_depth by blast
      show ?thesis
        unfolding full_eq sfull_eq E_def[symmetric] using call a1 a2 by blast
    qed
  qed
qed

lemma exactArith_simps:
  "dZero exactArith = 0" "dOne exactArith = 1" "dAdd exactArith = (+)" "dSub exactArith = (-)"
  "dMul exactArith = (*)" "dDiv exactArith = (/)" "dOfUnsigned exactArith = real"
  "dAbs exactArith = abs" "dLess exactArith = (<)"
  by (simp_all add: exactArith_def)

lemma pushWindowOn_exact: "pushWindowOn exactArith = pushWindow"
  by (simp add: pushWindowOn_def pushWindow_def exactArith_simps fun_eq_iff)

lemma convergedOn_exact: "convergedOn exactArith = converged"
  by (simp add: convergedOn_def converged_def exactArith_simps fun_eq_iff)

lemma adaptiveLoopOn_exact:
  "adaptiveLoopOn exactArith m udist hi maxDepth minDepth W thr depth s T g w ws rnd =
   adaptiveLoop m udist hi maxDepth minDepth W thr depth s T g w ws rnd"
proof (induction "maxDepth - depth" arbitrary: depth s T g w ws rnd)
  case 0
  then show ?case by (simp add: adaptiveLoopOn_done adaptiveLoop_done)
next
  case (Suc n)
  have n: "n = maxDepth - Suc depth" and lt: "depth < maxDepth"
    using Suc.hyps(2) by auto
  obtain a rnd1 where d: "udist (hi s) rnd = (a, rnd1)"
    by (cases "udist (hi s) rnd")
  obtain s' rew rnd2 where sr: "sampleSR m s a rnd1 = ((s', rew), rnd2)"
    by (cases "sampleSR m s a rnd1") auto
  obtain w' ws' where pw: "pushWindow W (g * rew) (w, ws) = (w', ws')"
    by (cases "pushWindow W (g * rew) (w, ws)")
  have pw': "pushWindowOn exactArith W (dMul exactArith g rew) (w, ws) = (w', ws')"
    using pw by (simp add: pushWindowOn_exact exactArith_simps)
  show ?case
    unfolding adaptiveLoopOn_step[where udist=udist and hi=hi, OF lt d sr pw']
      adaptiveLoop_step[where udist=udist and hi=hi, OF lt d sr pw]
    using Suc.hyps(1)[OF n]
    by (simp add: convergedOn_exact exactArith_simps split: sum.splits)
qed

lemma adaptiveRolloutOn_exact:
  "adaptiveRolloutOn exactArith m udist s maxDepth rnd minDepth W thr =
   adaptiveRollout m udist s maxDepth rnd minDepth W thr"
  unfolding adaptiveRolloutOn_loop adaptiveRollout_loop
  by (simp add: adaptiveLoopOn_exact exactArith_simps)

lemmas cents_simps = adaptiveRolloutOn_def walkOn_def counterDraw_def adaptiveLoopOn.simps
  pushWindowOn_def convergedOn_def size_t_pred_def centsArith_def

section \<open>The tables of the tiger problem\<close>

lemmas tiger_simps = makeTigerProblem_def Let_def newMatrix3D_def put3D_def A_LISTEN_def
  A_LEFT_def A_RIGHT_def TIG_LEFT_def TIG_RIGHT_def upt_conv_Cons numeral_2_eq_2 numeral_3_eq_3

lemma tiger_sizes:
  "getS makeTigerProblem = 2" "getNA makeTigerProblem = 3" "getO makeTigerProblem = 2"
  by (simp_all add: makeTigerProblem_def Let_def)

lemma tiger_transitions:
  "transitionFunction makeTigerProblem =
     [[[1, 0], [1/2, 1/2], [1/2, 1/2]], [[0, 1], [1/2, 1/2], [1/2, 1/2]]]"
  by (simp add: tiger_simps)

lemma tiger_rewards:
  "rewardFunction makeTigerProblem =
     [[[- 1, - 1], [- 100, - 100], [10, 10]], [[- 1, - 1], [10, 10], [- 100, - 100]]]"
  by (simp add: tiger_simps)

lemma tiger_observations:
  "observationFunction makeTigerProblem =
     [[[85/100, 15/100], [1/2, 1/2], [1/2, 1/2]], [[15/100, 85/100], [1/2, 1/2], [1/2, 1/2]]]"
  by (simp add: tiger_simps)

lemma less_2_cases_nat: "(s::nat) < 2 \<longleftrightarrow> s = 0 \<or> s = 1"
  by auto

lemma less_3_cases_nat: "(a::nat) < 3 \<longleftrightarrow> a = 0 \<or> a = 1 \<or> a = 2"
  by auto

section \<open>The claims\<close>

subsection \<open>C1: a window or a minimum depth that covers the whole rollout\<close>

text \<open>
  C1, as stated: with \<open>windowSize \<ge> maxDepth\<close> or \<open>minDepth \<ge> maxDepth\<close> the adaptive rollout
  returns the sum that \<^verbatim>\<open>rollout\<close> returns, the early-termination check never triggering.
  The second half fails at \<open>windowSize = maxDepth\<close>: with \<open>maxDepth = 1\<close>, \<open>windowSize = 1\<close>
  and \<open>minDepth = 0\<close> the window is full after the only step, its one entry equals its
  average, and the call leaves by the convergence return.
\<close>

theorem adaptiveRollout_converges_at_last_step:
  "adaptiveRollout (walk 2 1 100 1) counterDraw 0 1 0 0 1 (1/100) =
     Inr \<lparr>ret = 1, steps = 1, exitBy = Converged, engine = 1\<rparr>"
  by (simp add: run_simps)

text \<open>
  C1, amended: with \<open>windowSize \<ge> maxDepth\<close> or \<open>minDepth \<ge> maxDepth\<close> the adaptive rollout
  signals no fault and returns the same sum as \<^verbatim>\<open>rollout\<close>, after the same number of steps
  and leaving the engine in the same state. The convergence return can be taken only when
  \<open>windowSize = maxDepth\<close> and \<open>minDepth < maxDepth\<close>, and then only after the last of the
  \<open>maxDepth\<close> steps, where it returns what the return after the loop would.
\<close>

theorem adaptiveRollout_window_covers_maxDepth:
  assumes "maxDepth \<le> W \<or> maxDepth \<le> minDepth"
  shows "\<exists>out. adaptiveRollout m udist s maxDepth rnd minDepth W thr = Inr out \<and>
           ret out = ret (rollout m udist s maxDepth rnd) \<and>
           steps out = steps (rollout m udist s maxDepth rnd) \<and>
           engine out = engine (rollout m udist s maxDepth rnd) \<and>
           (exitBy out = Converged \<longrightarrow>
              W = maxDepth \<and> minDepth < maxDepth \<and> steps out = maxDepth)"
proof -
  have l0: "length ([]::real list) \<le> 0" by simp
  have "\<exists>out. adaptiveLoop m udist (actionBound m) maxDepth minDepth W thr 0 s 0 1 [] 0 rnd = Inr out"
    by (rule adaptiveLoop_short[OF l0 assms])
  then obtain out where out:
    "adaptiveLoop m udist (actionBound m) maxDepth minDepth W thr 0 s 0 1 [] 0 rnd = Inr out" ..
  have bound: "steps out \<le> maxDepth"
    using adaptiveLoop_steps[OF out] by simp
  have late: "W = maxDepth \<and> minDepth < maxDepth \<and> steps out = maxDepth"
    if "exitBy out = Converged"
    using adaptiveLoop_converged_late[OF l0 out that] bound assms by auto
  then have "rolloutLoop m udist (actionBound m) maxDepth 0 s 0 1 rnd = asRollout out"
    using adaptiveLoop_full[OF out] by simp
  then show ?thesis
    unfolding adaptiveRollout_loop rollout_loop using out late by (simp add: asRollout_simps)
qed

theorem adaptiveRollout_window_covers_maxDepth_witness:
  "((2::nat) \<le> 2 \<or> (2::nat) \<le> 0) \<and>
   adaptiveRollout (walk 2 1 100 1) counterDraw 0 2 0 0 2 (1/100) =
     Inr \<lparr>ret = 2, steps = 2, exitBy = Converged, engine = 2\<rparr> \<and>
   ret (rollout (walk 2 1 100 1) counterDraw 0 2 0) = 2 \<and>
   steps (rollout (walk 2 1 100 1) counterDraw 0 2 0) = 2 \<and>
   engine (rollout (walk 2 1 100 1) counterDraw 0 2 0) = 2"
proof -
  have run: "adaptiveRollout (walk 2 1 100 1) counterDraw 0 2 0 0 2 (1/100) =
     Inr \<lparr>ret = 2, steps = 2, exitBy = Converged, engine = 2\<rparr>"
    by (simp add: run_simps)
  show ?thesis
    using adaptiveRollout_window_covers_maxDepth[of 2 2 0 "walk 2 1 100 1" counterDraw 0 0 "1/100"] run
    by auto
qed

subsection \<open>C2: what rollout returns\<close>

text \<open>
  C2: \<^verbatim>\<open>rollout\<close> returns the sum of the rewards of the steps it simulates, the reward of
  the step at depth \<open>d\<close> (from 0) weighted by \<open>gamma^d\<close> for the model's discount \<open>gamma\<close>.
  It simulates the steps of the episode from \<open>s\<close>: at most \<open>maxDepth\<close> of them, none after a
  step that reaches a terminal state, whose discounted reward is part of the sum; when it
  stops before \<open>maxDepth\<close> steps it is by the terminal-state return. With \<open>maxDepth = 0\<close> it
  returns 0.
\<close>

theorem rollout_discounted_sum:
  assumes "out = rollout m udist s maxDepth rnd"
    and "tr = episode m udist (actionBound m) maxDepth s rnd"
  shows "ret out = (\<Sum>d<steps out. getDiscount m ^ d * snd (tr ! d)) \<and>
         steps out = length tr \<and> steps out \<le> maxDepth \<and>
         (\<forall>d<steps out. isTerminal m (fst (tr ! d)) \<longrightarrow> Suc d = steps out) \<and>
         (steps out < maxDepth \<longrightarrow> exitBy out = Terminal \<and> isTerminal m (fst (last tr))) \<and>
         (maxDepth = 0 \<longrightarrow> ret out = 0)"
proof -
  note ep = rolloutLoop_episode[of m udist "actionBound m" maxDepth 0 s 0 1 rnd]
  have st: "steps out = length tr"
    using ep assms by (simp add: rollout_loop)
  have val: "ret out = (\<Sum>d<steps out. getDiscount m ^ d * snd (tr ! d))"
    using ep assms by (simp add: rollout_loop discountedFrom_sum)
  have le: "steps out \<le> maxDepth"
    unfolding st assms(2) by (rule episode_length)
  have last: "\<forall>d<steps out. isTerminal m (fst (tr ! d)) \<longrightarrow> Suc d = steps out"
    unfolding st assms(2)
    using episode_terminal_last[of _ m udist "actionBound m" maxDepth s rnd] by blast
  have short: "steps out < maxDepth \<longrightarrow> exitBy out = Terminal \<and> isTerminal m (fst (last tr))"
  proof
    assume "steps out < maxDepth"
    then have "tr \<noteq> [] \<and> isTerminal m (fst (last tr))"
      unfolding st assms(2) by (rule episode_short)
    then show "exitBy out = Terminal \<and> isTerminal m (fst (last tr))"
      using ep assms by (simp add: rollout_loop)
  qed
  have zero: "maxDepth = 0 \<longrightarrow> ret out = 0"
    using val le by auto
  show ?thesis using val st le last short zero by blast
qed

text \<open>
  The walk with discount \<open>1/2\<close> whose states from 4 on are terminal, for \<open>maxDepth = 5\<close>:
  three steps, the last one reaching 4, and \<open>1 + 1/2 + 1/4\<close> returned.
\<close>

theorem rollout_discounted_sum_witness:
  "rollout (walk 2 1 4 (1/2)) counterDraw 0 5 0 =
     \<lparr>ret = 7/4, steps = 3, exitBy = Terminal, engine = 3\<rparr> \<and>
   episode (walk 2 1 4 (1/2)) counterDraw (actionBound (walk 2 1 4 (1/2))) 5 0 0 =
     [(1, 1), (3, 1), (4, 1)] \<and>
   (7/4 :: real) = (\<Sum>d<3. (1/2) ^ d * snd ([(1::int, 1::real), (3, 1), (4, 1)] ! d)) \<and>
   isTerminal (walk 2 1 4 (1/2)) 4 \<and>
   ret (rollout (walk 2 1 4 (1/2)) counterDraw 0 0 0) = 0"
proof -
  have r: "rollout (walk 2 1 4 (1/2)) counterDraw 0 5 0 =
     \<lparr>ret = 7/4, steps = 3, exitBy = Terminal, engine = 3\<rparr>"
    by (simp add: run_simps)
  have e: "episode (walk 2 1 4 (1/2)) counterDraw (actionBound (walk 2 1 4 (1/2))) 5 0 0 =
     [(1, 1), (3, 1), (4, 1)]"
    by (simp add: episode_simps)
  show ?thesis
    using rollout_discounted_sum[OF r[symmetric] e[symmetric]]
      rollout_discounted_sum[OF refl refl, of "walk 2 1 4 (1/2)" counterDraw 0 0 0] r e
    by (simp add: walk_def)
qed

subsection \<open>C3: early termination only truncates\<close>

text \<open>
  C3: whatever \<^verbatim>\<open>adaptiveRollout\<close> returns is what \<^verbatim>\<open>rollout\<close> returns when its
  \<open>maxDepth\<close> is the number of steps the adaptive rollout executed, from the same state
  with the same engine; the two calls also execute the same number of steps and leave the
  engine in the same state.
\<close>

theorem adaptiveRollout_truncates_rollout:
  "adaptiveRollout m udist s maxDepth rnd minDepth W thr = Inr out \<Longrightarrow>
   ret (rollout m udist s (steps out) rnd) = ret out \<and>
   steps (rollout m udist s (steps out) rnd) = steps out \<and>
   engine (rollout m udist s (steps out) rnd) = engine out"
  unfolding adaptiveRollout_loop rollout_loop
  by (drule adaptiveLoop_prefix) (simp add: asRollout_simps)

theorem adaptiveRollout_truncates_rollout_witness:
  "adaptiveRollout (walk 2 1 100 (1/2)) counterDraw 0 50 0 3 2 (1/100) =
     Inr \<lparr>ret = 127/64, steps = 7, exitBy = Converged, engine = 7\<rparr> \<and>
   ret (rollout (walk 2 1 100 (1/2)) counterDraw 0 7 0) = 127/64 \<and>
   steps (rollout (walk 2 1 100 (1/2)) counterDraw 0 7 0) = 7 \<and>
   engine (rollout (walk 2 1 100 (1/2)) counterDraw 0 7 0) = 7"
proof -
  have run: "adaptiveRollout (walk 2 1 100 (1/2)) counterDraw 0 50 0 3 2 (1/100) =
     Inr \<lparr>ret = 127/64, steps = 7, exitBy = Converged, engine = 7\<rparr>"
    by (simp add: run_simps)
  show ?thesis
    using adaptiveRollout_truncates_rollout[OF run] run by simp
qed

subsection \<open>C4: when the adaptive rollout terminates early\<close>

text \<open>
  C4: \<^verbatim>\<open>adaptiveRollout\<close> leaves by the convergence return exactly when some step of the
  episode satisfies the early-termination condition \<open>stopsEarlyAt\<close>: the step does not reach
  a terminal state, its depth is at least \<open>minDepth\<close>, the window (the most recent
  \<open>windowSize\<close> discounted rewards \<open>gamma^depth * reward\<close>, older ones evicted) holds
  exactly \<open>windowSize\<close> entries, and the absolute difference between its latest entry and
  its running sum divided by \<open>windowSize\<close> is strictly below the threshold. It then stops
  right after the first such step. This is for \<open>windowSize \<ge> 1\<close>; with \<open>windowSize = 0\<close>
  there is no latest entry and the convergence return is never taken.

  The statement is about the branch the program takes, so it is made for every arithmetic
  \<open>ar\<close>, with the products, the running sum, the quotient, the absolute value and the
  comparison of the condition computed by \<open>ar\<close> in the order the program computes them.
  At \<open>exactArith\<close> the function is \<open>adaptiveRollout\<close> (\<open>adaptiveRolloutOn_exact\<close>).
\<close>

theorem adaptiveRollout_early_termination:
  fixes m :: "('s, 'g, 'r) generative_model"
  shows "(0 < W \<longrightarrow>
     (\<exists>out. adaptiveRolloutOn ar m udist s maxDepth rnd minDepth W thr = Inr out \<and>
        (exitBy out = Converged \<longleftrightarrow>
           (\<exists>d. stopsEarlyAt ar m udist s maxDepth rnd minDepth W thr d)) \<and>
        (exitBy out = Converged \<longrightarrow>
           0 < steps out \<and>
           stopsEarlyAt ar m udist s maxDepth rnd minDepth W thr (steps out - 1) \<and>
           (\<forall>d<steps out - 1. \<not> stopsEarlyAt ar m udist s maxDepth rnd minDepth W thr d)))) \<and>
   (W = 0 \<longrightarrow>
     (\<forall>out. adaptiveRolloutOn ar m udist s maxDepth rnd minDepth W thr = Inr out \<longrightarrow>
        exitBy out \<noteq> Converged))"
proof (intro conjI impI allI)
  assume W: "0 < W"
  have l: "length ([]::'r list) = 0" and l': "length ([]::'s list) = 0" by simp_all
  from adaptiveLoopOn_early[OF W l l', of ar m udist "actionBound m" maxDepth minDepth thr s
      "dZero ar" rnd]
  show "\<exists>out. adaptiveRolloutOn ar m udist s maxDepth rnd minDepth W thr = Inr out \<and>
        (exitBy out = Converged \<longleftrightarrow>
           (\<exists>d. stopsEarlyAt ar m udist s maxDepth rnd minDepth W thr d)) \<and>
        (exitBy out = Converged \<longrightarrow>
           0 < steps out \<and>
           stopsEarlyAt ar m udist s maxDepth rnd minDepth W thr (steps out - 1) \<and>
           (\<forall>d<steps out - 1. \<not> stopsEarlyAt ar m udist s maxDepth rnd minDepth W thr d))"
    unfolding adaptiveRolloutOn_loop stopsEarlyAt_def by auto
next
  fix out
  assume "W = 0" and "adaptiveRolloutOn ar m udist s maxDepth rnd minDepth W thr = Inr out"
  then show "exitBy out \<noteq> Converged"
    unfolding adaptiveRolloutOn_loop
    using adaptiveLoopOn_converged_pos[of ar m udist "actionBound m" maxDepth minDepth W thr 0 s
        "dZero ar" "dOne ar" "[]" "dZero ar" rnd out]
    by auto
qed

text \<open>
  The walk with reward 1 and discount 1/2, window 2, threshold 0.01 and \<open>minDepth = 3\<close>. In
  hundredths rounded down the discounted rewards are 100, 50, 25, 12, 6, 3, 1, 0 and the
  call stops after the step at depth 7; in exact arithmetic it stops after the step at
  depth 6. With \<open>windowSize = 0\<close> and a terminal state after the first step the call ends
  there.
\<close>

theorem adaptiveRollout_early_termination_witness:
  "(0::nat) < 2 \<and>
   adaptiveRolloutOn centsArith (walkOn 2 100 1000 50) counterDraw 0 50 0 3 2 1 =
     Inr \<lparr>ret = 197, steps = 8, exitBy = Converged, engine = 8\<rparr> \<and>
   stopsEarlyAt centsArith (walkOn 2 100 1000 50) counterDraw 0 50 0 3 2 1 7 \<and>
   \<not> stopsEarlyAt centsArith (walkOn 2 100 1000 50) counterDraw 0 50 0 3 2 1 6 \<and>
   adaptiveRolloutOn exactArith (walk 2 1 100 (1/2)) counterDraw 0 50 0 3 2 (1/100) =
     Inr \<lparr>ret = 127/64, steps = 7, exitBy = Converged, engine = 7\<rparr> \<and>
   stopsEarlyAt exactArith (walk 2 1 100 (1/2)) counterDraw 0 50 0 3 2 (1/100) 6 \<and>
   \<not> stopsEarlyAt exactArith (walk 2 1 100 (1/2)) counterDraw 0 50 0 3 2 (1/100) 5 \<and>
   adaptiveRolloutOn exactArith (walk 2 1 1 1) counterDraw 0 5 0 2 0 (1/100) =
     Inr \<lparr>ret = 1, steps = 1, exitBy = Terminal, engine = 1\<rparr>"
proof -
  have cents: "adaptiveRolloutOn centsArith (walkOn 2 100 1000 50) counterDraw 0 50 0 3 2 1 =
     Inr \<lparr>ret = 197, steps = 8, exitBy = Converged, engine = 8\<rparr>"
    by (simp add: cents_simps)
  have exact: "adaptiveRolloutOn exactArith (walk 2 1 100 (1/2)) counterDraw 0 50 0 3 2 (1/100) =
     Inr \<lparr>ret = 127/64, steps = 7, exitBy = Converged, engine = 7\<rparr>"
    unfolding adaptiveRolloutOn_exact by (simp add: run_simps)
  have zero: "adaptiveRolloutOn exactArith (walk 2 1 1 1) counterDraw 0 5 0 2 0 (1/100) =
     Inr \<lparr>ret = 1, steps = 1, exitBy = Terminal, engine = 1\<rparr>"
    unfolding adaptiveRolloutOn_exact by (simp add: run_simps)
  show ?thesis
    using
      adaptiveRollout_early_termination[of 2 centsArith "walkOn 2 100 1000 50" counterDraw
        0 50 0 3 1]
      adaptiveRollout_early_termination[of 2 exactArith "walk 2 1 100 (1/2)" counterDraw
        0 50 0 3 "1/100"]
      cents exact zero
    by auto
qed

subsection \<open>C5: a window that is not full yet\<close>

text \<open>
  C5: a window with fewer entries than \<open>windowSize\<close> is no error and no convergence. For
  \<open>windowSize \<ge> 1\<close> the call signals no fault; it leaves by the convergence return only
  after at least \<open>windowSize\<close> steps; and a call that ends after fewer than \<open>windowSize\<close>
  steps ends as \<^verbatim>\<open>rollout\<close> does, at \<open>maxDepth\<close> or at a terminal state, with the same
  outcome.
\<close>

theorem adaptiveRollout_short_window:
  assumes "0 < W"
  shows "\<exists>out. adaptiveRollout m udist s maxDepth rnd minDepth W thr = Inr out \<and>
     (exitBy out = Converged \<longrightarrow> W \<le> steps out) \<and>
     (steps out < W \<longrightarrow> out = rollout m udist s maxDepth rnd)"
proof -
  have l0: "length ([]::real list) \<le> 0" by simp
  have "\<exists>out. adaptiveLoop m udist (actionBound m) maxDepth minDepth W thr 0 s 0 1 [] 0 rnd = Inr out"
    by (rule adaptiveLoop_total[OF assms])
  then obtain out where out:
    "adaptiveLoop m udist (actionBound m) maxDepth minDepth W thr 0 s 0 1 [] 0 rnd = Inr out" ..
  have late: "exitBy out = Converged \<longrightarrow> W \<le> steps out"
    using adaptiveLoop_converged_late[OF l0 out] by simp
  have "out = rolloutLoop m udist (actionBound m) maxDepth 0 s 0 1 rnd" if "steps out < W"
  proof -
    have nc: "exitBy out \<noteq> Converged" using late that by auto
    then show ?thesis using adaptiveLoop_full[OF out] by (simp add: asRollout_simps)
  qed
  then show ?thesis
    unfolding adaptiveRollout_loop rollout_loop using out late by blast
qed

theorem adaptiveRollout_short_window_witness:
  "(0::nat) < 5 \<and>
   adaptiveRollout (walk 2 1 100 1) counterDraw 0 3 0 0 5 100 =
     Inr \<lparr>ret = 3, steps = 3, exitBy = DepthReached, engine = 3\<rparr> \<and>
   rollout (walk 2 1 100 1) counterDraw 0 3 0 =
     \<lparr>ret = 3, steps = 3, exitBy = DepthReached, engine = 3\<rparr>"
proof -
  have run: "adaptiveRollout (walk 2 1 100 1) counterDraw 0 3 0 0 5 100 =
     Inr \<lparr>ret = 3, steps = 3, exitBy = DepthReached, engine = 3\<rparr>"
    by (simp add: run_simps)
  show ?thesis
    using adaptiveRollout_short_window[of 5 "walk 2 1 100 1" counterDraw 0 3 0 0 100] run
    by auto
qed

subsection \<open>C6: a negative threshold\<close>

text \<open>
  C6, as stated: a negative threshold is rejected before any simulation step runs. The
  function has no check of its parameters: with threshold \<open>-1\<close> the walk is simulated for
  all three steps and a sum is returned.
\<close>

theorem adaptiveRollout_runs_negative_threshold:
  "adaptiveRollout (walk 2 1 100 (1/2)) counterDraw 0 3 0 0 1 (- 1) =
     Inr \<lparr>ret = 7/4, steps = 3, exitBy = DepthReached, engine = 3\<rparr>"
  by (simp add: run_simps)

text \<open>
  C6, amended: \<^verbatim>\<open>adaptiveRollout\<close> accepts a negative threshold. With \<open>windowSize \<ge> 1\<close> it
  signals no fault, executes every step of the episode (at least one when \<open>maxDepth > 0\<close>)
  and never leaves by the convergence return.
\<close>

theorem adaptiveRollout_negative_threshold:
  assumes "thr < 0" and "0 < W"
  shows "\<exists>out. adaptiveRollout m udist s maxDepth rnd minDepth W thr = Inr out \<and>
     exitBy out \<noteq> Converged \<and>
     steps out = length (episode m udist (actionBound m) maxDepth s rnd) \<and>
     (0 < maxDepth \<longrightarrow> 0 < steps out)"
proof -
  have "\<exists>out. adaptiveLoop m udist (actionBound m) maxDepth minDepth W thr 0 s 0 1 [] 0 rnd = Inr out"
    by (rule adaptiveLoop_total[OF assms(2)])
  then obtain out where out:
    "adaptiveLoop m udist (actionBound m) maxDepth minDepth W thr 0 s 0 1 [] 0 rnd = Inr out" ..
  have nc: "exitBy out \<noteq> Converged"
    using adaptiveLoop_nonpos[OF _ out] assms(1) by simp
  have "rolloutLoop m udist (actionBound m) maxDepth 0 s 0 1 rnd = out"
    using adaptiveLoop_full[OF out] nc by (simp add: asRollout_simps)
  then have st: "steps out = length (episode m udist (actionBound m) maxDepth s rnd)"
    using rolloutLoop_episode[of m udist "actionBound m" maxDepth 0 s 0 1 rnd] by simp
  have "0 < maxDepth \<longrightarrow> 0 < steps out"
    unfolding st using episode_nonempty[of maxDepth m udist "actionBound m" s rnd] by simp
  then show ?thesis
    unfolding adaptiveRollout_loop using out nc st by blast
qed

theorem adaptiveRollout_negative_threshold_witness:
  "(- (1/2) :: real) < 0 \<and> (0::nat) < 2 \<and>
   adaptiveRollout (walk 2 1 100 1) counterDraw 0 4 0 1 2 (- (1/2)) =
     Inr \<lparr>ret = 4, steps = 4, exitBy = DepthReached, engine = 4\<rparr> \<and>
   length (episode (walk 2 1 100 1) counterDraw (actionBound (walk 2 1 100 1)) 4 0 0) = 4"
proof -
  have run: "adaptiveRollout (walk 2 1 100 1) counterDraw 0 4 0 1 2 (- (1/2)) =
     Inr \<lparr>ret = 4, steps = 4, exitBy = DepthReached, engine = 4\<rparr>"
    by (simp add: run_simps)
  show ?thesis
    using adaptiveRollout_negative_threshold[of "- (1/2)" 2 "walk 2 1 100 1" counterDraw 0 4 0 1] run
    by auto
qed

subsection \<open>C8: the tiger model\<close>

text \<open>
  C8: \<^verbatim>\<open>makeTigerProblem\<close> builds a model with 2 states, 3 actions and 2 observations.
  Listening leaves the state unchanged with probability 1, gives the observation of the
  tiger's side with probability 0.85 and has reward -1 in every state; opening the door
  without the tiger has reward 10, opening the tiger's door -100; opening either door moves
  to each state with probability 1/2; every row of the transition and observation tables
  is a probability distribution.
\<close>

theorem makeTigerProblem_model:
  "getS makeTigerProblem = 2 \<and> getNA makeTigerProblem = 3 \<and> getO makeTigerProblem = 2 \<and>
   (\<forall>s<2. \<forall>s1<2. at3D (transitionFunction makeTigerProblem) s A_LISTEN s1 =
                      (if s1 = s then 1 else 0)) \<and>
   (\<forall>s<2. at3D (observationFunction makeTigerProblem) s A_LISTEN s = 0.85) \<and>
   (\<forall>s<2. \<forall>s1<2. at3D (rewardFunction makeTigerProblem) s A_LISTEN s1 = - 1) \<and>
   (\<forall>s1<2. at3D (rewardFunction makeTigerProblem) TIG_RIGHT A_LEFT s1 = 10 \<and>
            at3D (rewardFunction makeTigerProblem) TIG_LEFT A_RIGHT s1 = 10 \<and>
            at3D (rewardFunction makeTigerProblem) TIG_LEFT A_LEFT s1 = - 100 \<and>
            at3D (rewardFunction makeTigerProblem) TIG_RIGHT A_RIGHT s1 = - 100) \<and>
   (\<forall>s<2. \<forall>s1<2. at3D (transitionFunction makeTigerProblem) s A_LEFT s1 = 1/2 \<and>
                    at3D (transitionFunction makeTigerProblem) s A_RIGHT s1 = 1/2) \<and>
   (\<forall>s<2. \<forall>a<3. isProbability (transitionFunction makeTigerProblem ! s ! a) \<and>
                   isProbability (observationFunction makeTigerProblem ! s ! a))"
proof -
  have listen: "\<forall>s<2. \<forall>s1<2. at3D (transitionFunction makeTigerProblem) s A_LISTEN s1 =
                      (if s1 = s then 1 else 0)"
    by (simp add: tiger_transitions at3D_def A_LISTEN_def less_2_cases_nat)
  have hear: "\<forall>s<2. at3D (observationFunction makeTigerProblem) s A_LISTEN s = 0.85"
    by (simp add: tiger_observations at3D_def A_LISTEN_def less_2_cases_nat)
  have cost: "\<forall>s<2. \<forall>s1<2. at3D (rewardFunction makeTigerProblem) s A_LISTEN s1 = - 1"
    by (simp add: tiger_rewards at3D_def A_LISTEN_def less_2_cases_nat)
  have doors: "\<forall>s1<2. at3D (rewardFunction makeTigerProblem) TIG_RIGHT A_LEFT s1 = 10 \<and>
            at3D (rewardFunction makeTigerProblem) TIG_LEFT A_RIGHT s1 = 10 \<and>
            at3D (rewardFunction makeTigerProblem) TIG_LEFT A_LEFT s1 = - 100 \<and>
            at3D (rewardFunction makeTigerProblem) TIG_RIGHT A_RIGHT s1 = - 100"
    by (simp add: tiger_rewards at3D_def A_LEFT_def A_RIGHT_def TIG_LEFT_def TIG_RIGHT_def
          less_2_cases_nat)
  have shuffle: "\<forall>s<2. \<forall>s1<2. at3D (transitionFunction makeTigerProblem) s A_LEFT s1 = 1/2 \<and>
                    at3D (transitionFunction makeTigerProblem) s A_RIGHT s1 = 1/2"
    by (simp add: tiger_transitions at3D_def A_LEFT_def A_RIGHT_def less_2_cases_nat)
  have rows: "\<forall>s<2. \<forall>a<3. isProbability (transitionFunction makeTigerProblem ! s ! a) \<and>
                   isProbability (observationFunction makeTigerProblem ! s ! a)"
    by (simp add: tiger_transitions tiger_observations isProbability_def less_2_cases_nat
          less_3_cases_nat)
  show ?thesis
    using tiger_sizes listen hear cost doors shuffle rows by blast
qed

theorem makeTigerProblem_model_witness:
  "(1::nat) < 2 \<and> (0::nat) < 2 \<and> (2::nat) < 3 \<and>
   at3D (transitionFunction makeTigerProblem) 1 A_LISTEN 1 = 1 \<and>
   at3D (transitionFunction makeTigerProblem) 1 A_LISTEN 0 = 0 \<and>
   at3D (observationFunction makeTigerProblem) 1 A_LISTEN 1 = 0.85 \<and>
   at3D (rewardFunction makeTigerProblem) 1 A_LISTEN 0 = - 1 \<and>
   at3D (rewardFunction makeTigerProblem) TIG_LEFT A_LEFT 0 = - 100 \<and>
   at3D (rewardFunction makeTigerProblem) TIG_LEFT A_RIGHT 0 = 10 \<and>
   at3D (transitionFunction makeTigerProblem) 1 A_RIGHT 0 = 1/2 \<and>
   isProbability (transitionFunction makeTigerProblem ! 1 ! 2) \<and>
   isProbability (observationFunction makeTigerProblem ! 1 ! 2)"
  using makeTigerProblem_model by simp

subsection \<open>C9: the convergence check is defined for a window size of at least 1\<close>

text \<open>
  C9: with \<open>windowSize \<ge> 1\<close> no evaluation of the convergence check divides by zero or
  reads the back of an empty deque: the call signals no fault. With \<open>windowSize = 0\<close> the
  check does both as soon as a step of depth at least \<open>minDepth\<close> does not reach a terminal
  state, and only then; a fault implies \<open>windowSize = 0\<close> and \<open>minDepth < maxDepth\<close>.
\<close>

theorem adaptiveRollout_check_defined:
  fixes m :: "('s, 'g) gen_model"
  shows
  "(0 < W \<longrightarrow> (\<exists>out. adaptiveRollout m udist s maxDepth rnd minDepth W thr = Inr out)) \<and>
   (W = 0 \<longrightarrow>
      (adaptiveRollout m udist s maxDepth rnd minDepth W thr = Inl [DivisionByZero, BackOfEmptyDeque])
      = (\<exists>d. reachesCheckAt m udist s maxDepth rnd minDepth d)) \<and>
   (\<forall>faults. adaptiveRollout m udist s maxDepth rnd minDepth W thr = Inl faults \<longrightarrow>
      W = 0 \<and> minDepth < maxDepth \<and> faults = [DivisionByZero, BackOfEmptyDeque])"
proof -
  have pos: "0 < W \<longrightarrow> (\<exists>out. adaptiveRollout m udist s maxDepth rnd minDepth W thr = Inr out)"
    unfolding adaptiveRollout_loop by (rule impI) (rule adaptiveLoop_total)
  have l': "length ([]::'s list) = 0" by simp
  note z = adaptiveLoop_zero_window[OF l', of m minDepth udist "actionBound m" maxDepth s rnd thr 0 1 0]
  have zero: "W = 0 \<longrightarrow>
      (adaptiveRollout m udist s maxDepth rnd minDepth W thr = Inl [DivisionByZero, BackOfEmptyDeque])
      = (\<exists>d. reachesCheckAt m udist s maxDepth rnd minDepth d)"
    unfolding adaptiveRollout_loop reachesCheckAt_def using z by (auto split: if_splits)
  have bound: "minDepth < maxDepth" if "reachesCheckAt m udist s maxDepth rnd minDepth d" for d
  proof -
    have "minDepth \<le> d" "d < length (episode m udist (actionBound m) maxDepth s rnd)"
      using that by (simp_all add: reachesCheckAt_def checkedAt_def)
    then show ?thesis
      using episode_length[of m udist "actionBound m" maxDepth s rnd] by simp
  qed
  have flt: "W = 0 \<and> minDepth < maxDepth \<and> faults = [DivisionByZero, BackOfEmptyDeque]"
    if f: "adaptiveRollout m udist s maxDepth rnd minDepth W thr = Inl faults" for faults
  proof -
    have W0: "W = 0" using pos f by (cases "0 < W") auto
    have "faults = [DivisionByZero, BackOfEmptyDeque] \<and> (\<exists>d. reachesCheckAt m udist s maxDepth rnd minDepth d)"
      using f z W0 unfolding adaptiveRollout_loop reachesCheckAt_def by (auto split: if_splits)
    then show ?thesis using W0 bound by blast
  qed
  show ?thesis using pos zero flt by blast
qed

text \<open>
  The walk for \<open>maxDepth = 5\<close> and \<open>minDepth = 2\<close>: the fault at \<open>windowSize = 0\<close>, a result
  at \<open>windowSize = 1\<close>.
\<close>

theorem adaptiveRollout_check_defined_witness:
  "reachesCheckAt (walk 2 1 100 1) counterDraw 0 5 0 2 2 \<and>
   adaptiveRollout (walk 2 1 100 1) counterDraw 0 5 0 2 0 (1/100) =
     Inl [DivisionByZero, BackOfEmptyDeque] \<and>
   (2::nat) < 5 \<and> (0::nat) < 1 \<and>
   adaptiveRollout (walk 2 1 100 1) counterDraw 0 5 0 2 1 (1/100) =
     Inr \<lparr>ret = 3, steps = 3, exitBy = Converged, engine = 3\<rparr>"
proof -
  have r: "reachesCheckAt (walk 2 1 100 1) counterDraw 0 5 0 2 2"
    by (simp add: reachesCheckAt_def checkedAt_def episode_simps)
  have run: "adaptiveRollout (walk 2 1 100 1) counterDraw 0 5 0 2 1 (1/100) =
     Inr \<lparr>ret = 3, steps = 3, exitBy = Converged, engine = 3\<rparr>"
    by (simp add: run_simps)
  show ?thesis
    using adaptiveRollout_check_defined[of 0 "walk 2 1 100 1" counterDraw 0 5 0 2 "1/100"] r run
    by auto
qed

subsection \<open>C10: a threshold that is not positive\<close>

text \<open>
  C10: with \<open>threshold \<le> 0\<close> and \<open>windowSize \<ge> 1\<close> the strict comparison of an absolute
  value with the threshold never holds, so \<^verbatim>\<open>adaptiveRollout\<close> never leaves by the
  convergence return and its outcome is that of \<^verbatim>\<open>rollout\<close> with the same model, state,
  \<open>maxDepth\<close> and engine.
\<close>

theorem adaptiveRollout_nonpositive_threshold:
  "thr \<le> 0 \<Longrightarrow> 0 < W \<Longrightarrow>
   adaptiveRollout m udist s maxDepth rnd minDepth W thr = Inr (rollout m udist s maxDepth rnd)"
proof -
  assume thr: "thr \<le> 0" and W: "0 < W"
  have "\<exists>out. adaptiveLoop m udist (actionBound m) maxDepth minDepth W thr 0 s 0 1 [] 0 rnd = Inr out"
    by (rule adaptiveLoop_total[OF W])
  then obtain out where out:
    "adaptiveLoop m udist (actionBound m) maxDepth minDepth W thr 0 s 0 1 [] 0 rnd = Inr out" ..
  have nc: "exitBy out \<noteq> Converged"
    using adaptiveLoop_nonpos[OF thr out] .
  have "rolloutLoop m udist (actionBound m) maxDepth 0 s 0 1 rnd = asRollout out"
    using adaptiveLoop_full[OF out] nc by simp
  then show ?thesis
    unfolding adaptiveRollout_loop rollout_loop using out nc by (simp add: asRollout_simps)
qed

theorem adaptiveRollout_nonpositive_threshold_witness:
  "(0::real) \<le> 0 \<and> (0::nat) < 2 \<and>
   adaptiveRollout (walk 2 1 100 1) counterDraw 0 4 0 1 2 0 =
     Inr \<lparr>ret = 4, steps = 4, exitBy = DepthReached, engine = 4\<rparr> \<and>
   rollout (walk 2 1 100 1) counterDraw 0 4 0 =
     \<lparr>ret = 4, steps = 4, exitBy = DepthReached, engine = 4\<rparr>"
proof -
  have r: "rollout (walk 2 1 100 1) counterDraw 0 4 0 =
     \<lparr>ret = 4, steps = 4, exitBy = DepthReached, engine = 4\<rparr>"
    by (simp add: run_simps)
  show ?thesis
    using adaptiveRollout_nonpositive_threshold[of 0 2 "walk 2 1 100 1" counterDraw 0 4 0 1] r
    by simp
qed

end
